theory Spec2Isabelle
  imports Main
begin

section \<open>The ThoughtNode model (src/models/ThoughtNode.ts)\<close>

text \<open>
  ThoughtNode objects are JavaScript objects held by reference: a node's \<open>aliasNode\<close> may be
  the node itself or one of its ancestors, so the object graph can be cyclic. Objects
  therefore live in a store and are named by references. Every reference denotes an
  object (JavaScript has no dangling reference), so the store is a total function, with
  an allocation pointer: a reference below \<open>nextRef\<close> is an object that exists.
\<close>

type_synonym ref = nat

datatype ThoughtNodeType =
  QUESTION | HYPOTHESIS | EVALUATION | CONCLUSION | META_REFLECTION | RECURSIVE_REFERENCE

datatype EvaluationStatus = PENDING | IN_PROGRESS | COMPLETE | ERROR | MEMOIZED

text \<open>The payloads of type \<open>any\<close> are never inspected.\<close>

typedecl any

record IsomorphicRepresentations =
  computational :: "any option"
  cognitive :: "any option"
  representational :: "any option"

text \<open>
  \<open>createdAt\<close> is a Date (milliseconds since the epoch). \<open>recursionDepth\<close> is a
  JavaScript number, an IEEE 754 double; the spec makes it a non-negative integer, so it
  is an \<open>int\<close> here, and the arithmetic on it rounds as the double does (see
  \<open>numberAdd\<close>). Fractions, NaN and the infinities are not represented.
\<close>

record Metadata =
  createdAt :: int
  evaluationStatus :: EvaluationStatus
  recursionDepth :: int
  memoizationKey :: "string option"

text \<open>
  The fields \<open>id\<close>, \<open>content\<close> and \<open>type\<close> of the class are \<open>tn_id\<close>, \<open>tn_content\<close> and
  \<open>tn_type\<close> here (\<open>id\<close> is a constant of HOL, and D3Node has fields of the same names).
\<close>

record ThoughtNode =
  tn_id :: string
  tn_content :: string
  tn_type :: ThoughtNodeType
  subThoughts :: "ref list"
  aliasNode :: "ref option"
  isomorphicRepresentations :: IsomorphicRepresentations
  metadata :: Metadata

record ThoughtNodeProps =
  p_id :: string
  p_content :: string
  p_type :: ThoughtNodeType
  p_subThoughts :: "ref list option"
  p_aliasNode :: "ref option"
  p_isomorphicRepresentations :: "IsomorphicRepresentations option"
  p_metadata :: "Metadata option"

record Store =
  objs :: "ref \<Rightarrow> ThoughtNode"
  nextRef :: ref

text \<open>
  \<open>+\<close> on integer-valued numbers. A double has a 53-bit significand: an integer of
  magnitude below \<open>2^53\<close> is exact, and a larger one is a multiple of \<open>2^e\<close>, where \<open>e\<close> is
  the number of bits it has beyond 53. The exact sum is rounded to the nearest such
  multiple, a tie going to the even multiple (round to nearest, ties to even).
\<close>

function doubleExponent :: "nat \<Rightarrow> nat" where
  "doubleExponent n = (if n < 2 ^ 53 then 0 else Suc (doubleExponent (n div 2)))"
  by pat_completeness auto
termination
  by (relation "measure (\<lambda>n. n)") auto

definition roundToDouble :: "int \<Rightarrow> int" where
  "roundToDouble v =
     (let q = 2 ^ doubleExponent (nat \<bar>v\<bar>);
          k = v div q;
          r = v mod q
      in if 2 * r < q then k * q
         else if q < 2 * r then (k + 1) * q
         else if even k then k * q else (k + 1) * q)"

definition numberAdd :: "int \<Rightarrow> int \<Rightarrow> int" where
  "numberAdd x y = roundToDouble (x + y)"

text \<open>
  The constructor: \<open>props.subThoughts || []\<close>, \<open>props.isomorphicRepresentations || {}\<close> and
  \<open>props.metadata || {createdAt: new Date(), evaluationStatus: PENDING, recursionDepth: 0}\<close>.
  The clock read by \<open>new Date()\<close> is the parameter \<open>now\<close>.
\<close>

definition newThoughtNode :: "int \<Rightarrow> ThoughtNodeProps \<Rightarrow> ThoughtNode" where
  "newThoughtNode now props =
     \<lparr> tn_id = p_id props,
       tn_content = p_content props,
       tn_type = p_type props,
       subThoughts = (case p_subThoughts props of Some xs \<Rightarrow> xs | None \<Rightarrow> []),
       aliasNode = p_aliasNode props,
       isomorphicRepresentations =
         (case p_isomorphicRepresentations props of
            Some i \<Rightarrow> i
          | None \<Rightarrow> \<lparr> computational = None, cognitive = None, representational = None \<rparr>),
       metadata =
         (case p_metadata props of
            Some m \<Rightarrow> m
          | None \<Rightarrow> \<lparr> createdAt = now, evaluationStatus = PENDING, recursionDepth = 0,
                      memoizationKey = None \<rparr>) \<rparr>"

text \<open>\<open>new\<close> puts the constructed object at the next free reference.\<close>

definition alloc :: "Store \<Rightarrow> ThoughtNode \<Rightarrow> Store \<times> ref" where
  "alloc st n = (st\<lparr> objs := (objs st)(nextRef st := n), nextRef := Suc (nextRef st) \<rparr>, nextRef st)"

text \<open>
  \<open>createSelfReference\<close>: the metadata is a fresh object literal spreading \<open>this.metadata\<close>
  with \<open>recursionDepth\<close> overridden; \<open>selfRef.aliasNode = this\<close> is assigned after
  construction.
\<close>

definition createSelfReference :: "int \<Rightarrow> Store \<Rightarrow> ref \<Rightarrow> Store \<times> ref" where
  "createSelfReference now st this =
     (let self = objs st this;
          (st1, selfRef) = alloc st (newThoughtNode now
             \<lparr> p_id = tn_id self @ ''-self-ref'',
               p_content = ''Reference to '' @ tn_content self,
               p_type = RECURSIVE_REFERENCE,
               p_subThoughts = None,
               p_aliasNode = None,
               p_isomorphicRepresentations = None,
               p_metadata = Some ((metadata self)
                  \<lparr> recursionDepth := numberAdd (recursionDepth (metadata self)) 1 \<rparr>) \<rparr>)
      in (st1\<lparr> objs := (objs st1)(selfRef := (objs st1 selfRef)\<lparr> aliasNode := Some this \<rparr>) \<rparr>,
          selfRef))"

section \<open>The flattening pass (src/components/ThoughtTree.tsx, first useEffect)\<close>

text \<open>
  D3Node and D3Link as the flattening builds them (\<open>x\<close> and \<open>y\<close> are left undefined by
  the pass). \<open>originalNode\<close> is the reference to the ThoughtNode. The D3Node objects are
  not mutated during the pass, so a link holds its end nodes by value.
\<close>

record D3Node =
  d3_id :: string
  reflexive :: bool
  d3_type :: ThoughtNodeType
  d3_content :: string
  status :: EvaluationStatus
  d3_recursionDepth :: int
  originalNode :: ref

record D3Link =
  source :: D3Node
  target :: D3Node
  isAlias :: bool

text \<open>
  What the effect can reach: the store of ThoughtNode objects and its two local arrays.
\<close>

record FlatState =
  heap :: Store
  d3Nodes :: "D3Node list"
  d3Links :: "D3Link list"

definition mkD3Node :: "ref \<Rightarrow> ThoughtNode \<Rightarrow> D3Node" where
  "mkD3Node r node =
     \<lparr> d3_id = tn_id node,
       reflexive = (aliasNode node \<noteq> None),
       d3_type = tn_type node,
       d3_content = tn_content node,
       status = evaluationStatus (metadata node),
       d3_recursionDepth = recursionDepth (metadata node),
       originalNode = r \<rparr>"

definition pushNode :: "D3Node \<Rightarrow> FlatState \<Rightarrow> FlatState" where
  "pushNode n s = s\<lparr> d3Nodes := d3Nodes s @ [n] \<rparr>"

definition pushLink :: "D3Node \<Rightarrow> D3Node \<Rightarrow> bool \<Rightarrow> FlatState \<Rightarrow> FlatState" where
  "pushLink src tgt al s =
     s\<lparr> d3Links := d3Links s @ [\<lparr> source = src, target = tgt, isAlias = al \<rparr>] \<rparr>"

text \<open>The predicate of \<open>d3Links.some(...)\<close>: the link joins the two ids, in either direction.\<close>

definition joins :: "string \<Rightarrow> string \<Rightarrow> D3Link \<Rightarrow> bool" where
  "joins a b l \<longleftrightarrow>
     (d3_id (source l) = a \<and> d3_id (target l) = b) \<or>
     (d3_id (target l) = a \<and> d3_id (source l) = b)"

text \<open>
  \<open>processNode\<close>. The recursion follows object references, so it carries fuel: the result
  is \<open>None\<close> when the fuel runs out, and \<open>Some (state, returned value)\<close> otherwise, where
  the returned value is \<open>None\<close> for \<open>undefined\<close>. \<open>forEachSub\<close> is the
  \<open>node.subThoughts.forEach\<close> loop of the body. \<open>maxVisibleDepth\<close> is a number, which
  may be negative; the depth starts at 0 and only grows. \<open>d3Nodes.push\<close> comes before
  the loop over the \<open>subThoughts\<close>, the structural link is pushed after the call for the
  child returns, and the alias is processed last, in the state the loop leaves.
\<close>

fun processNode :: "nat \<Rightarrow> int \<Rightarrow> ref \<Rightarrow> nat \<Rightarrow> FlatState \<Rightarrow> (FlatState \<times> D3Node option) option"
  and forEachSub :: "nat \<Rightarrow> int \<Rightarrow> D3Node \<Rightarrow> ref list \<Rightarrow> nat \<Rightarrow> FlatState \<Rightarrow> FlatState option"
where
  "processNode 0 maxVisibleDepth r depth s = None"
| "processNode (Suc fuel) maxVisibleDepth r depth s =
     (if int depth > maxVisibleDepth then Some (s, None)
      else
        let node = objs (heap s) r;
            d3Node = mkD3Node r node
        in case forEachSub fuel maxVisibleDepth d3Node (subThoughts node) depth (pushNode d3Node s) of
             None \<Rightarrow> None
           | Some s2 \<Rightarrow>
               (case aliasNode node of
                  None \<Rightarrow> Some (s2, Some d3Node)
                | Some a \<Rightarrow>
                    if list_ex (joins (tn_id node) (tn_id (objs (heap s2) a))) (d3Links s2)
                    then Some (s2, Some d3Node)
                    else
                      (case find (\<lambda>n. d3_id n = tn_id (objs (heap s2) a)) (d3Nodes s2) of
                         Some aliasD3Node \<Rightarrow> Some (pushLink d3Node aliasD3Node True s2, Some d3Node)
                       | None \<Rightarrow>
                           (case processNode fuel maxVisibleDepth a depth s2 of
                              None \<Rightarrow> None
                            | Some (s3, None) \<Rightarrow> Some (s3, Some d3Node)
                            | Some (s3, Some aliasD3Node) \<Rightarrow>
                                Some (pushLink d3Node aliasD3Node True s3, Some d3Node)))))"
| "forEachSub fuel maxVisibleDepth d3Node [] depth s = Some s"
| "forEachSub fuel maxVisibleDepth d3Node (subThought # rest) depth s =
     (case processNode fuel maxVisibleDepth subThought (depth + 1) s of
        None \<Rightarrow> None
      | Some (s1, None) \<Rightarrow> forEachSub fuel maxVisibleDepth d3Node rest depth s1
      | Some (s1, Some subNode) \<Rightarrow>
          forEachSub fuel maxVisibleDepth d3Node rest depth (pushLink d3Node subNode False s1))"

text \<open>\<open>rootThoughts.forEach(rootThought => processNode(rootThought))\<close>, at the default depth 0.\<close>

fun forEachRoot :: "nat \<Rightarrow> int \<Rightarrow> ref list \<Rightarrow> FlatState \<Rightarrow> FlatState option" where
  "forEachRoot fuel maxVisibleDepth [] s = Some s"
| "forEachRoot fuel maxVisibleDepth (rootThought # rest) s =
     (case processNode fuel maxVisibleDepth rootThought 0 s of
        None \<Rightarrow> None
      | Some (s1, _) \<Rightarrow> forEachRoot fuel maxVisibleDepth rest s1)"

text \<open>The whole effect: both arrays start empty; the final state holds what is set.\<close>

definition flatten :: "nat \<Rightarrow> Store \<Rightarrow> int \<Rightarrow> ref list \<Rightarrow> FlatState option" where
  "flatten fuel st maxVisibleDepth rootThoughts =
     forEachRoot fuel maxVisibleDepth rootThoughts \<lparr> heap = st, d3Nodes = [], d3Links = [] \<rparr>"


text \<open>The output as the claims read it: the ids of the node list, and of each link its
  two end ids and its flag.\<close>

definition nodeIds :: "FlatState \<Rightarrow> string list" where
  "nodeIds s = map d3_id (d3Nodes s)"

definition linkKeys :: "FlatState \<Rightarrow> (string \<times> string \<times> bool) list" where
  "linkKeys s = map (\<lambda>l. (d3_id (source l), d3_id (target l), isAlias l)) (d3Links s)"

section \<open>Completed runs as derivations\<close>

text \<open>
  A run of \<open>processNode\<close> that returns, read as a derivation with one rule per path
  through the body; \<open>H\<close> is the store, which the pass only reads. It is used to reason
  by rule induction about runs that return.
\<close>

inductive visit :: "Store \<Rightarrow> int \<Rightarrow> ref \<Rightarrow> nat \<Rightarrow> FlatState \<Rightarrow> FlatState \<Rightarrow> D3Node option \<Rightarrow> bool"
  and visitSubs :: "Store \<Rightarrow> int \<Rightarrow> D3Node \<Rightarrow> ref list \<Rightarrow> nat \<Rightarrow> FlatState \<Rightarrow> FlatState \<Rightarrow> bool"
  for H :: Store and md :: int
where
  Deep: "int d > md \<Longrightarrow> visit H md r d s s None"
| NoAlias: "\<not> int d > md \<Longrightarrow> aliasNode (objs H r) = None \<Longrightarrow>
     visitSubs H md (mkD3Node r (objs H r)) (subThoughts (objs H r)) d
       (pushNode (mkD3Node r (objs H r)) s) s2 \<Longrightarrow>
     visit H md r d s s2 (Some (mkD3Node r (objs H r)))"
| Linked: "\<not> int d > md \<Longrightarrow> aliasNode (objs H r) = Some a \<Longrightarrow>
     visitSubs H md (mkD3Node r (objs H r)) (subThoughts (objs H r)) d
       (pushNode (mkD3Node r (objs H r)) s) s2 \<Longrightarrow>
     list_ex (joins (tn_id (objs H r)) (tn_id (objs H a))) (d3Links s2) \<Longrightarrow>
     visit H md r d s s2 (Some (mkD3Node r (objs H r)))"
| Found: "\<not> int d > md \<Longrightarrow> aliasNode (objs H r) = Some a \<Longrightarrow>
     visitSubs H md (mkD3Node r (objs H r)) (subThoughts (objs H r)) d
       (pushNode (mkD3Node r (objs H r)) s) s2 \<Longrightarrow>
     \<not> list_ex (joins (tn_id (objs H r)) (tn_id (objs H a))) (d3Links s2) \<Longrightarrow>
     find (\<lambda>n. d3_id n = tn_id (objs H a)) (d3Nodes s2) = Some n \<Longrightarrow>
     visit H md r d s (pushLink (mkD3Node r (objs H r)) n True s2) (Some (mkD3Node r (objs H r)))"
| Visited: "\<not> int d > md \<Longrightarrow> aliasNode (objs H r) = Some a \<Longrightarrow>
     visitSubs H md (mkD3Node r (objs H r)) (subThoughts (objs H r)) d
       (pushNode (mkD3Node r (objs H r)) s) s2 \<Longrightarrow>
     \<not> list_ex (joins (tn_id (objs H r)) (tn_id (objs H a))) (d3Links s2) \<Longrightarrow>
     find (\<lambda>n. d3_id n = tn_id (objs H a)) (d3Nodes s2) = None \<Longrightarrow>
     visit H md a d s2 s3 (Some n) \<Longrightarrow>
     visit H md r d s (pushLink (mkD3Node r (objs H r)) n True s3) (Some (mkD3Node r (objs H r)))"
| Skipped: "\<not> int d > md \<Longrightarrow> aliasNode (objs H r) = Some a \<Longrightarrow>
     visitSubs H md (mkD3Node r (objs H r)) (subThoughts (objs H r)) d
       (pushNode (mkD3Node r (objs H r)) s) s2 \<Longrightarrow>
     \<not> list_ex (joins (tn_id (objs H r)) (tn_id (objs H a))) (d3Links s2) \<Longrightarrow>
     find (\<lambda>n. d3_id n = tn_id (objs H a)) (d3Nodes s2) = None \<Longrightarrow>
     visit H md a d s2 s3 None \<Longrightarrow>
     visit H md r d s s3 (Some (mkD3Node r (objs H r)))"
| SubsNil: "visitSubs H md n [] d s s"
| SubsOmitted: "visit H md c (d + 1) s s1 None \<Longrightarrow> visitSubs H md n cs d s1 s2 \<Longrightarrow>
     visitSubs H md n (c # cs) d s s2"
| SubsLinked: "visit H md c (d + 1) s s1 (Some sub) \<Longrightarrow>
     visitSubs H md n cs d (pushLink n sub False s1) s2 \<Longrightarrow>
     visitSubs H md n (c # cs) d s s2"


section \<open>Reachability in the forest\<close>

text \<open>\<open>subReach H k r x\<close>: \<open>x\<close> is reached from \<open>r\<close> by at most \<open>k\<close> \<open>subThoughts\<close> steps.\<close>

fun subReach :: "Store \<Rightarrow> nat \<Rightarrow> ref \<Rightarrow> ref \<Rightarrow> bool" where
  "subReach H 0 r x \<longleftrightarrow> x = r"
| "subReach H (Suc k) r x \<longleftrightarrow> x = r \<or> list_ex (\<lambda>c. subReach H k c x) (subThoughts (objs H r))"

text \<open>
  \<open>visibleAt H roots d x\<close>: \<open>x\<close> is reached from a root by a path with \<open>d\<close>
  \<open>subThoughts\<close> steps and any number of \<open>aliasNode\<close> steps.
\<close>

inductive visibleAt :: "Store \<Rightarrow> ref list \<Rightarrow> nat \<Rightarrow> ref \<Rightarrow> bool"
  for H :: Store and roots :: "ref list"
where
  vis_root: "r \<in> set roots \<Longrightarrow> visibleAt H roots 0 r"
| vis_sub: "visibleAt H roots d r \<Longrightarrow> c \<in> set (subThoughts (objs H r)) \<Longrightarrow>
     visibleAt H roots (Suc d) c"
| vis_alias: "visibleAt H roots d r \<Longrightarrow> aliasNode (objs H r) = Some a \<Longrightarrow>
     visibleAt H roots d a"

section \<open>Example forests\<close>

text \<open>A node built by the constructor with the default metadata, and a store holding
  the listed objects at the references 0, 1, ...\<close>

definition exampleNode :: "string \<Rightarrow> ref list \<Rightarrow> ref option \<Rightarrow> ThoughtNode" where
  "exampleNode i subs al =
     newThoughtNode 0
       \<lparr> p_id = i, p_content = i, p_type = QUESTION, p_subThoughts = Some subs,
         p_aliasNode = al, p_isomorphicRepresentations = None, p_metadata = None \<rparr>"

text \<open>A node constructed with the given \<open>recursionDepth\<close> in its metadata.\<close>

definition deepNode :: "string \<Rightarrow> int \<Rightarrow> ThoughtNode" where
  "deepNode i depth =
     newThoughtNode 0
       \<lparr> p_id = i, p_content = i, p_type = QUESTION, p_subThoughts = None,
         p_aliasNode = None, p_isomorphicRepresentations = None,
         p_metadata = Some \<lparr> createdAt = 0, evaluationStatus = PENDING,
           recursionDepth = depth, memoizationKey = None \<rparr> \<rparr>"

definition storeOf :: "ThoughtNode list \<Rightarrow> Store" where
  "storeOf xs =
     \<lparr> objs = (\<lambda>r. if r < length xs then xs ! r else exampleNode [] [] None),
       nextRef = length xs \<rparr>"

text \<open>A parent whose \<open>aliasNode\<close> is its child, a child whose \<open>aliasNode\<close> is its parent, and
  the state in which the pass starts.\<close>

definition aliasChildStore :: Store where
  "aliasChildStore = storeOf [exampleNode ''p'' [1] (Some 1), exampleNode ''c'' [] None]"

definition aliasParentStore :: Store where
  "aliasParentStore = storeOf [exampleNode ''p'' [1] None, exampleNode ''c'' [] (Some 0)]"

definition emptyState :: "Store \<Rightarrow> FlatState" where
  "emptyState st = \<lparr> heap = st, d3Nodes = [], d3Links = [] \<rparr>"

section \<open>Finite forests\<close>

text \<open>
  A set \<open>L\<close> of objects is closed when the \<open>subThoughts\<close> and the \<open>aliasNode\<close> of its
  members are members: a forest is such a set that holds the roots. \<open>unvisited\<close> is the
  set of ids of \<open>L\<close> that are not yet in the node list.
\<close>

definition closedUnder :: "Store \<Rightarrow> ref set \<Rightarrow> bool" where
  "closedUnder H L \<longleftrightarrow>
     (\<forall>r\<in>L. set (subThoughts (objs H r)) \<subseteq> L \<and>
        (\<forall>a. aliasNode (objs H r) = Some a \<longrightarrow> a \<in> L))"

definition unvisited :: "Store \<Rightarrow> ref set \<Rightarrow> FlatState \<Rightarrow> string set" where
  "unvisited H L s = (\<lambda>r. tn_id (objs H r)) ` L - set (nodeIds s)"

section \<open>The depth bound as an invariant\<close>

text \<open>
  A node of the output is within the bound when its ThoughtNode is reached from a root
  with at most \<open>maxVisibleDepth\<close> \<open>subThoughts\<close> steps; a link is within the bound when it
  is an alias link or goes from such a node to one of its \<open>subThoughts\<close> one step deeper.
\<close>

definition nodeOk :: "Store \<Rightarrow> ref list \<Rightarrow> int \<Rightarrow> D3Node \<Rightarrow> bool" where
  "nodeOk H roots md n \<longleftrightarrow> (\<exists>k. int k \<le> md \<and> visibleAt H roots k (originalNode n))"

definition linkOk :: "Store \<Rightarrow> ref list \<Rightarrow> int \<Rightarrow> D3Link \<Rightarrow> bool" where
  "linkOk H roots md l \<longleftrightarrow> isAlias l \<or>
     (\<exists>k. int (Suc k) \<le> md \<and> visibleAt H roots k (originalNode (source l)) \<and>
        originalNode (target l) \<in> set (subThoughts (objs H (originalNode (source l)))))"

definition depthOk :: "Store \<Rightarrow> ref list \<Rightarrow> int \<Rightarrow> FlatState \<Rightarrow> bool" where
  "depthOk H roots md s \<longleftrightarrow>
     (\<forall>n\<in>set (d3Nodes s). nodeOk H roots md n) \<and> (\<forall>l\<in>set (d3Links s). linkOk H roots md l)"

section \<open>A node referenced only as an alias\<close>

text \<open>
  \<open>linksClosed\<close>: both ends of every link are in the node list (by id).
  \<open>aliasLinked a b\<close>: some alias link goes from id \<open>a\<close> to id \<open>b\<close>.
  \<open>aliasOnly H L A B\<close>: in the forest \<open>L\<close>, the node \<open>B\<close> is the \<open>aliasNode\<close> of \<open>A\<close>, no other
  node has its id, it is no node's \<open>subThought\<close> and no other node's \<open>aliasNode\<close>.
  \<open>aliasPending a b\<close>: once id \<open>b\<close> is in the node list, an alias link from \<open>a\<close> to \<open>b\<close> is
  in the link list.
\<close>

definition linksClosed :: "FlatState \<Rightarrow> bool" where
  "linksClosed s \<longleftrightarrow>
     (\<forall>l\<in>set (d3Links s). d3_id (source l) \<in> set (nodeIds s) \<and> d3_id (target l) \<in> set (nodeIds s))"

definition aliasLinked :: "string \<Rightarrow> string \<Rightarrow> FlatState \<Rightarrow> bool" where
  "aliasLinked a b s \<longleftrightarrow> list_ex (\<lambda>l. isAlias l \<and> d3_id (source l) = a \<and> d3_id (target l) = b) (d3Links s)"

definition aliasOnly :: "Store \<Rightarrow> ref set \<Rightarrow> ref \<Rightarrow> ref \<Rightarrow> bool" where
  "aliasOnly H L A B \<longleftrightarrow>
     aliasNode (objs H A) = Some B \<and>
     (\<forall>r\<in>L. tn_id (objs H r) = tn_id (objs H B) \<longrightarrow> r = B) \<and>
     (\<forall>r\<in>L. B \<notin> set (subThoughts (objs H r))) \<and>
     (\<forall>r\<in>L. aliasNode (objs H r) = Some B \<longrightarrow> r = A)"

definition aliasPending :: "string \<Rightarrow> string \<Rightarrow> FlatState \<Rightarrow> bool" where
  "aliasPending a b s \<longleftrightarrow> (b \<in> set (nodeIds s) \<longrightarrow> aliasLinked a b s)"

text \<open>A root with the child \<open>a\<close>, where \<open>a\<close> and the otherwise unreferenced \<open>b\<close> alias each
  other.\<close>

definition aliasTargetStore :: Store where
  "aliasTargetStore =
     storeOf [exampleNode ''r'' [1] None, exampleNode ''a'' [] (Some 2), exampleNode ''b'' [] (Some 1)]"

section \<open>Where alias links come from\<close>

text \<open>
  \<open>structLinked n b\<close>: a structural link goes from the node \<open>n\<close> to id \<open>b\<close>.
  \<open>aliasLinkOk\<close>: an alias link was pushed by a visit of its source node at some depth
  \<open>d\<close> within the bound, to the id of that node's \<open>aliasNode\<close>; and when the \<open>aliasNode\<close> is
  one of the node's own \<open>subThoughts\<close>, that depth is \<open>maxVisibleDepth\<close> itself (the visit
  whose \<open>subThoughts\<close> are all beyond the bound).
\<close>

definition structLinked :: "D3Node \<Rightarrow> string \<Rightarrow> FlatState \<Rightarrow> bool" where
  "structLinked n b s \<longleftrightarrow>
     (\<exists>l\<in>set (d3Links s). \<not> isAlias l \<and> source l = n \<and> d3_id (target l) = b)"

definition aliasLinkOk :: "Store \<Rightarrow> ref list \<Rightarrow> int \<Rightarrow> D3Link \<Rightarrow> bool" where
  "aliasLinkOk H roots md l \<longleftrightarrow>
     (isAlias l \<longrightarrow>
        (\<exists>d a. int d \<le> md \<and> visibleAt H roots d (originalNode (source l)) \<and>
           aliasNode (objs H (originalNode (source l))) = Some a \<and>
           d3_id (target l) = tn_id (objs H a) \<and>
           (a \<in> set (subThoughts (objs H (originalNode (source l)))) \<longrightarrow> int d = md)))"

definition aliasOk :: "Store \<Rightarrow> ref list \<Rightarrow> int \<Rightarrow> FlatState \<Rightarrow> bool" where
  "aliasOk H roots md s \<longleftrightarrow> (\<forall>l\<in>set (d3Links s). aliasLinkOk H roots md l)"

section \<open>Basic facts about the pass\<close>

lemma heap_pushNode [simp]: "heap (pushNode n s) = heap s" by (simp add: pushNode_def)
lemma heap_pushLink [simp]: "heap (pushLink a b c s) = heap s" by (simp add: pushLink_def)
lemma d3Nodes_pushNode [simp]: "d3Nodes (pushNode n s) = d3Nodes s @ [n]" by (simp add: pushNode_def)
lemma d3Links_pushNode [simp]: "d3Links (pushNode n s) = d3Links s" by (simp add: pushNode_def)
lemma d3Nodes_pushLink [simp]: "d3Nodes (pushLink a b c s) = d3Nodes s" by (simp add: pushLink_def)
lemma d3Links_pushLink [simp]: "d3Links (pushLink a b c s) = d3Links s @ [\<lparr> source = a, target = b, isAlias = c \<rparr>]" by (simp add: pushLink_def)

lemma processNode_SucE:
  assumes "processNode (Suc f) md r d s = Some (s', res)"
  obtains
    (Deep) "int d > md" "s' = s" "res = None"
  | (NoAlias) "\<not> int d > md" "res = Some (mkD3Node r (objs (heap s) r))"
      "aliasNode (objs (heap s) r) = None"
      "forEachSub f md (mkD3Node r (objs (heap s) r)) (subThoughts (objs (heap s) r)) d
         (pushNode (mkD3Node r (objs (heap s) r)) s) = Some s'"
  | (Linked) a where "\<not> int d > md" "res = Some (mkD3Node r (objs (heap s) r))"
      "aliasNode (objs (heap s) r) = Some a"
      "forEachSub f md (mkD3Node r (objs (heap s) r)) (subThoughts (objs (heap s) r)) d
         (pushNode (mkD3Node r (objs (heap s) r)) s) = Some s'"
      "list_ex (joins (tn_id (objs (heap s) r)) (tn_id (objs (heap s') a))) (d3Links s')"
  | (Found) a s2 n where "\<not> int d > md" "res = Some (mkD3Node r (objs (heap s) r))"
      "aliasNode (objs (heap s) r) = Some a"
      "forEachSub f md (mkD3Node r (objs (heap s) r)) (subThoughts (objs (heap s) r)) d
         (pushNode (mkD3Node r (objs (heap s) r)) s) = Some s2"
      "\<not> list_ex (joins (tn_id (objs (heap s) r)) (tn_id (objs (heap s2) a))) (d3Links s2)"
      "find (\<lambda>n. d3_id n = tn_id (objs (heap s2) a)) (d3Nodes s2) = Some n"
      "s' = pushLink (mkD3Node r (objs (heap s) r)) n True s2"
  | (Visited) a s2 s3 n where "\<not> int d > md" "res = Some (mkD3Node r (objs (heap s) r))"
      "aliasNode (objs (heap s) r) = Some a"
      "forEachSub f md (mkD3Node r (objs (heap s) r)) (subThoughts (objs (heap s) r)) d
         (pushNode (mkD3Node r (objs (heap s) r)) s) = Some s2"
      "\<not> list_ex (joins (tn_id (objs (heap s) r)) (tn_id (objs (heap s2) a))) (d3Links s2)"
      "find (\<lambda>n. d3_id n = tn_id (objs (heap s2) a)) (d3Nodes s2) = None"
      "processNode f md a d s2 = Some (s3, Some n)"
      "s' = pushLink (mkD3Node r (objs (heap s) r)) n True s3"
  | (Skipped) a s2 where "\<not> int d > md" "res = Some (mkD3Node r (objs (heap s) r))"
      "aliasNode (objs (heap s) r) = Some a"
      "forEachSub f md (mkD3Node r (objs (heap s) r)) (subThoughts (objs (heap s) r)) d
         (pushNode (mkD3Node r (objs (heap s) r)) s) = Some s2"
      "\<not> list_ex (joins (tn_id (objs (heap s) r)) (tn_id (objs (heap s2) a))) (d3Links s2)"
      "find (\<lambda>n. d3_id n = tn_id (objs (heap s2) a)) (d3Nodes s2) = None"
      "processNode f md a d s2 = Some (s', None)"
  using assms
  by (simp add: Let_def split: if_splits option.splits prod.splits)

lemma forEachSub_ConsE:
  assumes "forEachSub f md n (c # cs) d s = Some s'"
  obtains
    (Omitted) s1 where "processNode f md c (d + 1) s = Some (s1, None)"
      "forEachSub f md n cs d s1 = Some s'"
  | (Linked) s1 sub where "processNode f md c (d + 1) s = Some (s1, Some sub)"
      "forEachSub f md n cs d (pushLink n sub False s1) = Some s'"
  using assms
  by (simp split: option.splits prod.splits)



declare processNode.simps(2) [simp del] forEachSub.simps(2) [simp del]

lemma processNode_heap:
  "processNode f md r d s = Some (s', res) \<Longrightarrow> heap s' = heap s"
  and forEachSub_heap:
  "forEachSub f md n cs d s = Some s'' \<Longrightarrow> heap s'' = heap s"
proof (induction f md r d s and f md n cs d s arbitrary: s' res and s''
    rule: processNode_forEachSub.induct)
  case (1 md r d s)
  then show ?case by simp
next
  case (2 f md r d s)
  note sub = "2.IH"(1) [OF _ refl refl]
  note ali = "2.IH"(2) [OF _ refl refl]
  from "2.prems" show ?case
  proof (cases rule: processNode_SucE)
    case Deep
    then show ?thesis by simp
  next
    case NoAlias
    then show ?thesis using sub [OF NoAlias(1) NoAlias(4)] by simp
  next
    case (Linked a)
    then show ?thesis using sub [OF Linked(1) Linked(4)] by simp
  next
    case (Found a s2 n)
    then show ?thesis using sub [OF Found(1) Found(4)] by simp
  next
    case (Visited a s2 s3 n)
    then show ?thesis
      using sub [OF Visited(1) Visited(4)]
        ali [OF Visited(1) Visited(4) Visited(3) Visited(5) Visited(6) Visited(7)]
      by simp
  next
    case (Skipped a s2)
    then show ?thesis
      using sub [OF Skipped(1) Skipped(4)]
        ali [OF Skipped(1) Skipped(4) Skipped(3) Skipped(5) Skipped(6) Skipped(7)]
      by simp
  qed
next
  case (3 f md n d s)
  then show ?case by simp
next
  case (4 f md n c cs d s)
  from "4.prems" show ?case
  proof (cases rule: forEachSub_ConsE)
    case (Omitted s1)
    then show ?thesis
      using "4.IH"(1) [OF Omitted(1)] "4.IH"(2) [OF Omitted(1) refl refl Omitted(2)] by simp
  next
    case (Linked s1 sub)
    then show ?thesis
      using "4.IH"(1) [OF Linked(1)] "4.IH"(3) [OF Linked(1) refl refl Linked(2)]
      by simp
  qed
qed



lemma processNode_visit:
  "processNode f md r d s = Some (s', res) \<Longrightarrow> visit (heap s) md r d s s' res"
  and forEachSub_visitSubs:
  "forEachSub f md n cs d s = Some s'' \<Longrightarrow> visitSubs (heap s) md n cs d s s''"
proof (induction f md r d s and f md n cs d s arbitrary: s' res and s''
    rule: processNode_forEachSub.induct)
  case (1 md r d s)
  then show ?case by simp
next
  case (2 f md r d s)
  note sub = "2.IH"(1) [OF _ refl refl]
  note ali = "2.IH"(2) [OF _ refl refl]
  from "2.prems" show ?case
  proof (cases rule: processNode_SucE)
    case Deep
    then show ?thesis by (simp add: visit_visitSubs.Deep)
  next
    case NoAlias
    then show ?thesis
      using sub [OF NoAlias(1) NoAlias(4)] by (simp add: visit_visitSubs.NoAlias)
  next
    case (Linked a)
    have "heap s' = heap s" using forEachSub_heap [OF Linked(4)] by simp
    then show ?thesis
      using Linked sub [OF Linked(1) Linked(4)] by (simp add: visit_visitSubs.Linked)
  next
    case (Found a s2 n)
    have "heap s2 = heap s" using forEachSub_heap [OF Found(4)] by simp
    then show ?thesis
      using Found sub [OF Found(1) Found(4)] by (simp add: visit_visitSubs.Found)
  next
    case (Visited a s2 s3 n)
    have h: "heap s2 = heap s" using forEachSub_heap [OF Visited(4)] by simp
    show ?thesis
      using Visited h sub [OF Visited(1) Visited(4)]
        ali [OF Visited(1) Visited(4) Visited(3) Visited(5) Visited(6) Visited(7)]
      by (simp add: visit_visitSubs.Visited)
  next
    case (Skipped a s2)
    have h: "heap s2 = heap s" using forEachSub_heap [OF Skipped(4)] by simp
    show ?thesis
      using Skipped h sub [OF Skipped(1) Skipped(4)]
        ali [OF Skipped(1) Skipped(4) Skipped(3) Skipped(5) Skipped(6) Skipped(7)]
      by (simp add: visit_visitSubs.Skipped)
  qed
next
  case (3 f md n d s)
  then show ?case by (simp add: SubsNil)
next
  case (4 f md n c cs d s)
  from "4.prems" show ?case
  proof (cases rule: forEachSub_ConsE)
    case (Omitted s1)
    have h: "heap s1 = heap s" using processNode_heap [OF Omitted(1)] .
    show ?thesis
      using "4.IH"(1) [OF Omitted(1)] "4.IH"(2) [OF Omitted(1) refl refl Omitted(2)] h
      by (auto intro: SubsOmitted)
  next
    case (Linked s1 sub)
    have h: "heap s1 = heap s" using processNode_heap [OF Linked(1)] .
    show ?thesis
      using "4.IH"(1) [OF Linked(1)] "4.IH"(3) [OF Linked(1) refl refl Linked(2)] h
      by (auto intro: SubsLinked)
  qed
qed


lemma processNode_Suc_fuel:
  "processNode f md r d s = Some (s', res) \<Longrightarrow> processNode (Suc f) md r d s = Some (s', res)"
  and forEachSub_Suc_fuel:
  "forEachSub f md n cs d s = Some s'' \<Longrightarrow> forEachSub (Suc f) md n cs d s = Some s''"
proof (induction f md r d s and f md n cs d s arbitrary: s' res and s''
    rule: processNode_forEachSub.induct)
  case (1 md r d s)
  then show ?case by simp
next
  case (2 f md r d s)
  note sub = "2.IH"(1) [OF _ refl refl]
  note ali = "2.IH"(2) [OF _ refl refl]
  from "2.prems" show ?case
  proof (cases rule: processNode_SucE)
    case Deep
    then show ?thesis by (simp add: processNode.simps(2))
  next
    case NoAlias
    then show ?thesis
      using sub [OF NoAlias(1) NoAlias(4)] by (simp add: processNode.simps(2) [of "Suc f"] Let_def)
  next
    case (Linked a)
    then show ?thesis
      using sub [OF Linked(1) Linked(4)] by (simp add: processNode.simps(2) [of "Suc f"] Let_def)
  next
    case (Found a s2 n)
    then show ?thesis
      using sub [OF Found(1) Found(4)] by (simp add: processNode.simps(2) [of "Suc f"] Let_def)
  next
    case (Visited a s2 s3 n)
    then show ?thesis
      using sub [OF Visited(1) Visited(4)]
        ali [OF Visited(1) Visited(4) Visited(3) Visited(5) Visited(6) Visited(7)]
      by (simp add: processNode.simps(2) [of "Suc f"] Let_def)
  next
    case (Skipped a s2)
    then show ?thesis
      using sub [OF Skipped(1) Skipped(4)]
        ali [OF Skipped(1) Skipped(4) Skipped(3) Skipped(5) Skipped(6) Skipped(7)]
      by (simp add: processNode.simps(2) [of "Suc f"] Let_def)
  qed
next
  case (3 f md n d s)
  then show ?case by simp
next
  case (4 f md n c cs d s)
  from "4.prems" show ?case
  proof (cases rule: forEachSub_ConsE)
    case (Omitted s1)
    then show ?thesis
      using "4.IH"(1) [OF Omitted(1)] "4.IH"(2) [OF Omitted(1) refl refl Omitted(2)]
      by (simp add: forEachSub.simps(2) [of "Suc f"])
  next
    case (Linked s1 sub)
    then show ?thesis
      using "4.IH"(1) [OF Linked(1)] "4.IH"(3) [OF Linked(1) refl refl Linked(2)]
      by (simp add: forEachSub.simps(2) [of "Suc f"])
  qed
qed

lemma processNode_fuel_mono:
  "processNode f md r d s = Some x \<Longrightarrow> f \<le> g \<Longrightarrow> processNode g md r d s = Some x"
  by (cases x, induction g) (auto simp: le_Suc_eq dest: processNode_Suc_fuel)

lemma forEachSub_fuel_mono:
  "forEachSub f md n cs d s = Some x \<Longrightarrow> f \<le> g \<Longrightarrow> forEachSub g md n cs d s = Some x"
  by (induction g) (auto simp: le_Suc_eq dest: forEachSub_Suc_fuel)

lemma forEachRoot_fuel_mono:
  "forEachRoot f md rs s = Some x \<Longrightarrow> f \<le> g \<Longrightarrow> forEachRoot g md rs s = Some x"
proof (induction rs arbitrary: s)
  case Nil
  then show ?case by simp
next
  case (Cons r rs)
  from Cons.prems(1) obtain s1 res where
    p: "processNode f md r 0 s = Some (s1, res)" and q: "forEachRoot f md rs s1 = Some x"
    by (auto split: option.splits)
  from processNode_fuel_mono [OF p Cons.prems(2)] Cons.IH [OF q Cons.prems(2)]
  show ?case by simp
qed

lemma forEachRoot_heap:
  "forEachRoot f md rs s = Some s' \<Longrightarrow> heap s' = heap s"
proof (induction rs arbitrary: s)
  case Nil
  then show ?case by simp
next
  case (Cons r rs)
  from Cons.prems obtain s1 res where
    p: "processNode f md r 0 s = Some (s1, res)" and q: "forEachRoot f md rs s1 = Some s'"
    by (auto split: option.splits)
  from processNode_heap [OF p] Cons.IH [OF q] show ?case by simp
qed

text \<open>Unfolding the pass on a concrete forest.\<close>

lemmas eval_defs = flatten_def storeOf_def exampleNode_def newThoughtNode_def mkD3Node_def
  pushNode_def pushLink_def joins_def nodeIds_def linkKeys_def Let_def processNode.simps(2) forEachSub.simps(2)

section \<open>Runs that return\<close>

lemma visit_grows:
  "visit H md r d s s' res \<Longrightarrow>
     (\<exists>ns ls. d3Nodes s' = d3Nodes s @ ns \<and> d3Links s' = d3Links s @ ls)"
  and visitSubs_grows:
  "visitSubs H md n cs d s s'' \<Longrightarrow>
     (\<exists>ns ls. d3Nodes s'' = d3Nodes s @ ns \<and> d3Links s'' = d3Links s @ ls)"
  by (induction rule: visit_visitSubs.inducts) auto

lemma visit_nodes_mono: "visit H md r d s s' res \<Longrightarrow> set (d3Nodes s) \<subseteq> set (d3Nodes s')"
  using visit_grows by fastforce

lemma visit_links_mono: "visit H md r d s s' res \<Longrightarrow> set (d3Links s) \<subseteq> set (d3Links s')"
  using visit_grows by fastforce

lemma visitSubs_nodes_mono: "visitSubs H md n cs d s s' \<Longrightarrow> set (d3Nodes s) \<subseteq> set (d3Nodes s')"
  using visitSubs_grows by fastforce

lemma visitSubs_links_mono: "visitSubs H md n cs d s s' \<Longrightarrow> set (d3Links s) \<subseteq> set (d3Links s')"
  using visitSubs_grows by fastforce

lemma visit_None: "visit H md r d s s' None \<Longrightarrow> md < int d \<and> s' = s"
  by (erule visit.cases) auto

lemma visit_Some:
  assumes "visit H md r d s s' (Some n)"
  shows "n = mkD3Node r (objs H r) \<and> \<not> md < int d \<and> n \<in> set (d3Nodes s')"
  using assms
  by (cases rule: visit.cases) (auto dest!: visitSubs_nodes_mono visit_nodes_mono)

lemma processNode_nodes_mono:
  "processNode f md r d s = Some (s', res) \<Longrightarrow> set (nodeIds s) \<subseteq> set (nodeIds s')"
  using visit_nodes_mono [OF processNode_visit] by (fastforce simp: nodeIds_def)

lemma forEachSub_nodes_mono:
  "forEachSub f md n cs d s = Some s' \<Longrightarrow> set (nodeIds s) \<subseteq> set (nodeIds s')"
  using visitSubs_nodes_mono [OF forEachSub_visitSubs] by (fastforce simp: nodeIds_def)

lemma nodeIds_pushNode [simp]: "nodeIds (pushNode n s) = nodeIds s @ [d3_id n]"
  by (simp add: nodeIds_def)

lemma nodeIds_pushLink [simp]: "nodeIds (pushLink a b c s) = nodeIds s"
  by (simp add: nodeIds_def)

lemma d3_id_mkD3Node [simp]: "d3_id (mkD3Node r n) = tn_id n"
  by (simp add: mkD3Node_def)

lemma originalNode_mkD3Node [simp]: "originalNode (mkD3Node r n) = r"
  by (simp add: mkD3Node_def)

section \<open>Every run on a finite forest returns\<close>

lemma closedUnder_sub: "closedUnder H L \<Longrightarrow> r \<in> L \<Longrightarrow> set (subThoughts (objs H r)) \<subseteq> L"
  by (simp add: closedUnder_def)

lemma closedUnder_alias: "closedUnder H L \<Longrightarrow> r \<in> L \<Longrightarrow> aliasNode (objs H r) = Some a \<Longrightarrow> a \<in> L"
  by (simp add: closedUnder_def)

lemma unvisited_mono:
  "finite L \<Longrightarrow> set (nodeIds s) \<subseteq> set (nodeIds s') \<Longrightarrow>
   card (unvisited H L s') \<le> card (unvisited H L s)"
  by (rule card_mono) (auto simp: unvisited_def)

lemma unvisited_less:
  "finite L \<Longrightarrow> card (unvisited H L s - X) \<le> card (unvisited H L s)"
  by (rule card_mono) (auto simp: unvisited_def)

lemma unvisited_pushNode:
  "unvisited H L (pushNode n s) = unvisited H L s - {d3_id n}"
  by (auto simp: unvisited_def)

lemma unvisited_pushLink [simp]:
  "unvisited H L (pushLink a b c s) = unvisited H L s"
  by (auto simp: unvisited_def)

lemma forEachSub_returns:
  assumes fin: "finite L"
    and IH: "\<And>r d s. heap s = H \<Longrightarrow> r \<in> L \<Longrightarrow>
       nat (md + 1 - int d) + card (unvisited H L s - {tn_id (objs H r)}) < f \<Longrightarrow>
       \<exists>s' res. processNode f md r d s = Some (s', res)"
  shows "heap s = H \<Longrightarrow> set cs \<subseteq> L \<Longrightarrow> nat (md - int d) + card (unvisited H L s) < f \<Longrightarrow>
    \<exists>s'. forEachSub f md n cs d s = Some s'"
proof (induction cs arbitrary: s)
  case Nil
  then show ?case by simp
next
  case (Cons c cs)
  have cL: "c \<in> L" and csL: "set cs \<subseteq> L" using Cons.prems(2) by simp_all
  have "nat (md + 1 - int (d + 1)) + card (unvisited H L s - {tn_id (objs H c)}) < f"
    using Cons.prems(3) unvisited_less [OF fin, of H s "{tn_id (objs H c)}"] by simp
  from IH [OF Cons.prems(1) cL this] obtain s1 res where
    p: "processNode f md c (d + 1) s = Some (s1, res)" by blast
  have h1: "heap s1 = H" using processNode_heap [OF p] Cons.prems(1) by simp
  have "card (unvisited H L s1) \<le> card (unvisited H L s)"
    using unvisited_mono [OF fin processNode_nodes_mono [OF p]] .
  then have m1: "nat (md - int d) + card (unvisited H L s1) < f" using Cons.prems(3) by simp
  show ?case
  proof (cases res)
    case None
    then show ?thesis using p Cons.IH [OF h1 csL m1] by (simp add: forEachSub.simps(2))
  next
    case (Some sub)
    have "\<exists>s'. forEachSub f md n cs d (pushLink n sub False s1) = Some s'"
      using h1 m1 csL by (intro Cons.IH) simp_all
    then show ?thesis using p Some by (simp add: forEachSub.simps(2))
  qed
qed

lemma processNode_returns:
  assumes fin: "finite L" and cl: "closedUnder H L"
  shows "heap s = H \<Longrightarrow> r \<in> L \<Longrightarrow>
    nat (md + 1 - int d) + card (unvisited H L s - {tn_id (objs H r)}) < f \<Longrightarrow>
    \<exists>s' res. processNode f md r d s = Some (s', res)"
proof (induction f arbitrary: r d s)
  case 0
  then show ?case by simp
next
  case (Suc f)
  show ?case
  proof (cases "md < int d")
    case True
    then show ?thesis by (simp add: processNode.simps(2))
  next
    case False
    let ?node = "objs H r"
    let ?n = "mkD3Node r ?node"
    let ?s1 = "pushNode ?n s"
    have u1: "unvisited H L ?s1 = unvisited H L s - {tn_id ?node}"
      by (simp add: unvisited_pushNode)
    have "nat (md + 1 - int d) = Suc (nat (md - int d))" using False by simp
    then have m1: "nat (md - int d) + card (unvisited H L ?s1) < f"
      using Suc.prems(3) u1 by simp
    have "\<exists>s2. forEachSub f md ?n (subThoughts ?node) d ?s1 = Some s2"
      using Suc.prems(1) m1 closedUnder_sub [OF cl Suc.prems(2)]
      by (intro forEachSub_returns [OF fin Suc.IH]) simp_all
    then obtain s2 where sub: "forEachSub f md ?n (subThoughts ?node) d ?s1 = Some s2" by blast
    have h2: "heap s2 = H" using forEachSub_heap [OF sub] Suc.prems(1) by simp
    have i2: "set (nodeIds ?s1) \<subseteq> set (nodeIds s2)" using forEachSub_nodes_mono [OF sub] .
    show ?thesis
    proof (cases "aliasNode ?node")
      case None
      then show ?thesis using False sub Suc.prems(1) by (simp add: processNode.simps(2) Let_def)
    next
      case (Some a)
      have aL: "a \<in> L" using closedUnder_alias [OF cl Suc.prems(2) Some] .
      show ?thesis
      proof (cases "list_ex (joins (tn_id ?node) (tn_id (objs H a))) (d3Links s2)")
        case True
        then show ?thesis using False sub Some Suc.prems(1) h2
          by (simp add: processNode.simps(2) Let_def)
      next
        case nolink: False
        show ?thesis
        proof (cases "find (\<lambda>n. d3_id n = tn_id (objs H a)) (d3Nodes s2)")
          case found: (Some m)
          then show ?thesis using False sub Some nolink Suc.prems(1) h2
            by (simp add: processNode.simps(2) Let_def)
        next
          case None
          then have notin: "tn_id (objs H a) \<notin> set (nodeIds s2)"
            by (auto simp: find_None_iff nodeIds_def)
          have "unvisited H L s2 \<subseteq> unvisited H L ?s1"
            using i2 unfolding unvisited_def by blast
          moreover have "tn_id (objs H a) \<in> unvisited H L s2"
            using notin aL unfolding unvisited_def by blast
          ultimately have "unvisited H L s2 - {tn_id (objs H a)} \<subset> unvisited H L ?s1"
            by blast
          moreover have "finite (unvisited H L ?s1)" using fin by (simp add: unvisited_def)
          ultimately have "card (unvisited H L s2 - {tn_id (objs H a)}) < card (unvisited H L ?s1)"
            by (rule psubset_card_mono [rotated])
          then have "nat (md + 1 - int d) + card (unvisited H L s2 - {tn_id (objs H a)}) < f"
            using Suc.prems(3) u1 by simp
          from Suc.IH [OF h2 aL this] obtain s3 res where
            p: "processNode f md a d s2 = Some (s3, res)" by blast
          show ?thesis using False sub Some nolink None p Suc.prems(1) h2
            by (cases res) (simp_all add: processNode.simps(2) Let_def)
        qed
      qed
    qed
  qed
qed

lemma forEachRoot_returns:
  assumes fin: "finite L" and cl: "closedUnder H L"
  shows "heap s = H \<Longrightarrow> set rs \<subseteq> L \<Longrightarrow> nat (md + 1) + card (unvisited H L s) < f \<Longrightarrow>
    \<exists>s'. forEachRoot f md rs s = Some s'"
proof (induction rs arbitrary: s)
  case Nil
  then show ?case by simp
next
  case (Cons r rs)
  have rL: "r \<in> L" and rsL: "set rs \<subseteq> L" using Cons.prems(2) by simp_all
  have "nat (md + 1 - int 0) + card (unvisited H L s - {tn_id (objs H r)}) < f"
    using Cons.prems(3) unvisited_less [OF fin, of H s "{tn_id (objs H r)}"] by simp
  from processNode_returns [OF fin cl Cons.prems(1) rL this] obtain s1 res where
    p: "processNode f md r 0 s = Some (s1, res)" by blast
  have h1: "heap s1 = H" using processNode_heap [OF p] Cons.prems(1) by simp
  have "card (unvisited H L s1) \<le> card (unvisited H L s)"
    using unvisited_mono [OF fin processNode_nodes_mono [OF p]] .
  then have "nat (md + 1) + card (unvisited H L s1) < f" using Cons.prems(3) by simp
  from Cons.IH [OF h1 rsL this] show ?case using p by simp
qed

lemma flatten_returns:
  assumes "finite L" and "closedUnder st L" and "set rootThoughts \<subseteq> L"
  shows "\<exists>fuel out. \<forall>fuel' \<ge> fuel. flatten fuel' st maxVisibleDepth rootThoughts = Some out"
proof -
  let ?f = "Suc (nat (maxVisibleDepth + 1) + card L)"
  let ?s0 = "\<lparr> heap = st, d3Nodes = [], d3Links = [] \<rparr>"
  have "card (unvisited st L ?s0) \<le> card L"
    using assms(1) by (simp add: unvisited_def nodeIds_def card_image_le)
  then have "nat (maxVisibleDepth + 1) + card (unvisited st L ?s0) < ?f" by simp
  with forEachRoot_returns [OF assms(1,2), of ?s0 rootThoughts maxVisibleDepth ?f] assms(3)
  obtain out where "forEachRoot ?f maxVisibleDepth rootThoughts ?s0 = Some out" by auto
  then have "flatten fuel' st maxVisibleDepth rootThoughts = Some out" if "?f \<le> fuel'" for fuel'
    using forEachRoot_fuel_mono [OF _ that] by (simp add: flatten_def)
  then show ?thesis by blast
qed

section \<open>The output stays within the depth bound\<close>

lemma depthOk_pushNode:
  "depthOk H roots md s \<Longrightarrow> visibleAt H roots d r \<Longrightarrow> \<not> md < int d \<Longrightarrow>
   depthOk H roots md (pushNode (mkD3Node r x) s)"
  by (auto simp: depthOk_def nodeOk_def intro!: exI [of _ d])

lemma depthOk_pushLink_alias:
  "depthOk H roots md s \<Longrightarrow> depthOk H roots md (pushLink a b True s)"
  by (auto simp: depthOk_def linkOk_def)

lemma depthOk_pushLink_sub:
  "depthOk H roots md s \<Longrightarrow> visibleAt H roots d (originalNode n) \<Longrightarrow> \<not> md < int (d + 1) \<Longrightarrow>
   c \<in> set (subThoughts (objs H (originalNode n))) \<Longrightarrow>
   depthOk H roots md (pushLink n (mkD3Node c x) False s)"
  by (auto simp: depthOk_def linkOk_def intro!: exI [of _ d])

lemma visit_depthOk:
  "visit H md r d s s' res \<Longrightarrow> visibleAt H roots d r \<Longrightarrow> depthOk H roots md s \<Longrightarrow>
     depthOk H roots md s'"
  and visitSubs_depthOk:
  "visitSubs H md n cs d s s'' \<Longrightarrow> visibleAt H roots d (originalNode n) \<Longrightarrow>
     set cs \<subseteq> set (subThoughts (objs H (originalNode n))) \<Longrightarrow> depthOk H roots md s \<Longrightarrow>
     depthOk H roots md s''"
proof (induction rule: visit_visitSubs.inducts)
  case (Deep d r s)
  then show ?case by simp
next
  case (NoAlias d r s s2)
  then show ?case by (simp add: depthOk_pushNode)
next
  case (Linked d r a s s2)
  then show ?case by (simp add: depthOk_pushNode)
next
  case (Found d r a s s2 n)
  then show ?case by (simp add: depthOk_pushNode depthOk_pushLink_alias)
next
  case (Visited d r a s s2 s3 n)
  have "visibleAt H roots d a" using Visited.prems(1) Visited(2) by (rule vis_alias)
  then show ?case using Visited by (simp add: depthOk_pushNode depthOk_pushLink_alias)
next
  case (Skipped d r a s s2 s3)
  have "visibleAt H roots d a" using Skipped.prems(1) Skipped(2) by (rule vis_alias)
  then show ?case using Skipped by (simp add: depthOk_pushNode)
next
  case (SubsNil n d s)
  then show ?case by simp
next
  case (SubsOmitted c d s s1 n cs s2)
  have "visibleAt H roots (Suc d) c" using SubsOmitted.prems(1,2) by (auto intro: vis_sub)
  then show ?case using SubsOmitted by simp
next
  case (SubsLinked c d s s1 sub n cs s2)
  have v: "visibleAt H roots (Suc d) c" using SubsLinked.prems(1,2) by (auto intro: vis_sub)
  have sub: "sub = mkD3Node c (objs H c)" "\<not> md < int (d + 1)"
    using visit_Some [OF SubsLinked(1)] by simp_all
  have "depthOk H roots md s1" using SubsLinked(2) v SubsLinked.prems(3) by simp
  then have "depthOk H roots md (pushLink n sub False s1)"
    unfolding sub(1) using SubsLinked.prems(1,2) sub(2) by (intro depthOk_pushLink_sub) auto
  then show ?case using SubsLinked by simp
qed

lemma forEachRoot_depthOk:
  "forEachRoot f md rs s = Some s' \<Longrightarrow> set rs \<subseteq> set roots \<Longrightarrow> depthOk (heap s) roots md s \<Longrightarrow>
   depthOk (heap s) roots md s'"
proof (induction rs arbitrary: s)
  case Nil
  then show ?case by simp
next
  case (Cons r rs)
  from Cons.prems(1) obtain s1 res where
    p: "processNode f md r 0 s = Some (s1, res)" and q: "forEachRoot f md rs s1 = Some s'"
    by (auto split: option.splits)
  have h: "heap s1 = heap s" using processNode_heap [OF p] .
  have "visibleAt (heap s) roots 0 r" using Cons.prems(2) by (auto intro: vis_root)
  from visit_depthOk [OF processNode_visit [OF p] this Cons.prems(3)]
  have "depthOk (heap s1) roots md s1" using h by simp
  from Cons.IH [OF q _ this] Cons.prems(2) h show ?case by simp
qed

lemma flatten_depthOk:
  assumes "flatten f st md roots = Some out"
  shows "depthOk st roots md out"
  using forEachRoot_depthOk [of f md roots "\<lparr> heap = st, d3Nodes = [], d3Links = [] \<rparr>" out roots] assms
  by (simp add: flatten_def depthOk_def)

section \<open>Alias targets that are referenced nowhere else\<close>

lemma linksClosed_pushNode: "linksClosed s \<Longrightarrow> linksClosed (pushNode n s)"
  by (auto simp: linksClosed_def)

lemma linksClosed_pushLink:
  "linksClosed s \<Longrightarrow> d3_id a \<in> set (nodeIds s) \<Longrightarrow> d3_id b \<in> set (nodeIds s) \<Longrightarrow>
   linksClosed (pushLink a b f s)"
  by (auto simp: linksClosed_def)

lemma visit_ids_mono: "visit H md r d s s' res \<Longrightarrow> set (nodeIds s) \<subseteq> set (nodeIds s')"
  using visit_nodes_mono by (fastforce simp: nodeIds_def)

lemma visitSubs_ids_mono: "visitSubs H md n cs d s s' \<Longrightarrow> set (nodeIds s) \<subseteq> set (nodeIds s')"
  using visitSubs_nodes_mono by (fastforce simp: nodeIds_def)

lemma visit_Some_id:
  "visit H md r d s s' (Some n) \<Longrightarrow> d3_id n \<in> set (nodeIds s') \<and> d3_id n = tn_id (objs H r)"
  using visit_Some by (fastforce simp: nodeIds_def)

lemma find_Some_id: "find P xs = Some n \<Longrightarrow> n \<in> set xs \<and> P n"
  by (auto simp: find_Some_iff)

lemma visit_linksClosed:
  "visit H md r d s s' res \<Longrightarrow> linksClosed s \<Longrightarrow> linksClosed s'"
  and visitSubs_linksClosed:
  "visitSubs H md n cs d s s'' \<Longrightarrow> d3_id n \<in> set (nodeIds s) \<Longrightarrow> linksClosed s \<Longrightarrow>
     linksClosed s''"
proof (induction rule: visit_visitSubs.inducts)
  case (Deep d r s)
  then show ?case by simp
next
  case (NoAlias d r s s2)
  then show ?case by (simp add: linksClosed_pushNode)
next
  case (Linked d r a s s2)
  then show ?case by (simp add: linksClosed_pushNode)
next
  case (Found d r a s s2 n)
  have c2: "linksClosed s2" using Found by (simp add: linksClosed_pushNode)
  have "tn_id (objs H r) \<in> set (nodeIds s2)" using visitSubs_ids_mono [OF Found(3)] by auto
  moreover have "d3_id n \<in> set (nodeIds s2)"
    using find_Some_id [OF Found(6)] by (force simp: nodeIds_def)
  ultimately show ?case using c2 by (simp add: linksClosed_pushLink)
next
  case (Visited d r a s s2 s3 n)
  have c3: "linksClosed s3" using Visited by (simp add: linksClosed_pushNode)
  have "tn_id (objs H r) \<in> set (nodeIds s3)"
    using visitSubs_ids_mono [OF Visited(3)] visit_ids_mono [OF Visited(7)] by auto
  moreover have "d3_id n \<in> set (nodeIds s3)" using visit_Some_id [OF Visited(7)] by blast
  ultimately show ?case using c3 by (simp add: linksClosed_pushLink)
next
  case (Skipped d r a s s2 s3)
  then show ?case by (simp add: linksClosed_pushNode)
next
  case (SubsNil n d s)
  then show ?case by simp
next
  case (SubsOmitted c d s s1 n cs s2)
  have "d3_id n \<in> set (nodeIds s1)" using visit_ids_mono [OF SubsOmitted(1)] SubsOmitted.prems by auto
  then show ?case using SubsOmitted by simp
next
  case (SubsLinked c d s s1 sub n cs s2)
  have n1: "d3_id n \<in> set (nodeIds s1)" using visit_ids_mono [OF SubsLinked(1)] SubsLinked.prems by auto
  have "d3_id sub \<in> set (nodeIds s1)" using visit_Some_id [OF SubsLinked(1)] by blast
  then have "linksClosed (pushLink n sub False s1)"
    using n1 SubsLinked by (simp add: linksClosed_pushLink)
  then show ?case using SubsLinked n1 by simp
qed


lemma aliasOnly_alias: "aliasOnly H L A B \<Longrightarrow> aliasNode (objs H A) = Some B"
  by (simp add: aliasOnly_def)

lemma aliasOnly_id: "aliasOnly H L A B \<Longrightarrow> r \<in> L \<Longrightarrow> tn_id (objs H r) = tn_id (objs H B) \<Longrightarrow> r = B"
  by (simp add: aliasOnly_def)

lemma aliasOnly_sub: "aliasOnly H L A B \<Longrightarrow> r \<in> L \<Longrightarrow> B \<notin> set (subThoughts (objs H r))"
  by (simp add: aliasOnly_def)

lemma aliasOnly_only: "aliasOnly H L A B \<Longrightarrow> r \<in> L \<Longrightarrow> aliasNode (objs H r) = Some B \<Longrightarrow> r = A"
  by (simp add: aliasOnly_def)

lemma count_pushNode:
  assumes "aliasOnly H L A B" "r \<in> L" "count_list (nodeIds s) (tn_id (objs H B)) \<le> 1"
    and "r = B \<longrightarrow> tn_id (objs H B) \<notin> set (nodeIds s)"
  shows "count_list (nodeIds (pushNode (mkD3Node r (objs H r)) s)) (tn_id (objs H B)) \<le> 1"
proof (cases "r = B")
  case True
  then have "count_list (nodeIds s) (tn_id (objs H B)) = 0" using assms(4) by simp
  then show ?thesis by simp
next
  case False
  then have "tn_id (objs H r) \<noteq> tn_id (objs H B)" using aliasOnly_id [OF assms(1,2)] by blast
  then show ?thesis using assms(3) by simp
qed

lemma visit_count:
  assumes cl: "closedUnder H L" and ao: "aliasOnly H L A B"
  shows "visit H md r d s s' res \<Longrightarrow> r \<in> L \<Longrightarrow>
      count_list (nodeIds s) (tn_id (objs H B)) \<le> 1 \<Longrightarrow>
      (r = B \<longrightarrow> tn_id (objs H B) \<notin> set (nodeIds s)) \<Longrightarrow>
      count_list (nodeIds s') (tn_id (objs H B)) \<le> 1"
  and "visitSubs H md n cs d s s'' \<Longrightarrow> set cs \<subseteq> L \<Longrightarrow> B \<notin> set cs \<Longrightarrow>
      count_list (nodeIds s) (tn_id (objs H B)) \<le> 1 \<Longrightarrow>
      count_list (nodeIds s'') (tn_id (objs H B)) \<le> 1"
proof (induction rule: visit_visitSubs.inducts)
  case (Deep d r s)
  then show ?case by simp
next
  case (NoAlias d r s s2)
  show ?case
    using NoAlias(4) closedUnder_sub [OF cl NoAlias.prems(1)] aliasOnly_sub [OF ao NoAlias.prems(1)]
      count_pushNode [OF ao NoAlias.prems] by blast
next
  case (Linked d r a s s2)
  show ?case
    using Linked(4) closedUnder_sub [OF cl Linked.prems(1)] aliasOnly_sub [OF ao Linked.prems(1)]
      count_pushNode [OF ao Linked.prems] by blast
next
  case (Found d r a s s2 n)
  have "count_list (nodeIds s2) (tn_id (objs H B)) \<le> 1"
    using Found(4) closedUnder_sub [OF cl Found.prems(1)] aliasOnly_sub [OF ao Found.prems(1)]
      count_pushNode [OF ao Found.prems] by blast
  then show ?case by simp
next
  case (Visited d r a s s2 s3 n)
  have c2: "count_list (nodeIds s2) (tn_id (objs H B)) \<le> 1"
    using Visited(4) closedUnder_sub [OF cl Visited.prems(1)] aliasOnly_sub [OF ao Visited.prems(1)]
      count_pushNode [OF ao Visited.prems] by blast
  have aL: "a \<in> L" using closedUnder_alias [OF cl Visited.prems(1) Visited(2)] .
  have "tn_id (objs H a) \<notin> set (nodeIds s2)"
    using Visited(6) by (auto simp: find_None_iff nodeIds_def)
  then have "count_list (nodeIds s3) (tn_id (objs H B)) \<le> 1"
    using Visited(8) [OF aL c2] by blast
  then show ?case by simp
next
  case (Skipped d r a s s2 s3)
  have c2: "count_list (nodeIds s2) (tn_id (objs H B)) \<le> 1"
    using Skipped(4) closedUnder_sub [OF cl Skipped.prems(1)] aliasOnly_sub [OF ao Skipped.prems(1)]
      count_pushNode [OF ao Skipped.prems] by blast
  have aL: "a \<in> L" using closedUnder_alias [OF cl Skipped.prems(1) Skipped(2)] .
  have "tn_id (objs H a) \<notin> set (nodeIds s2)"
    using Skipped(6) by (auto simp: find_None_iff nodeIds_def)
  then show ?case using Skipped(8) [OF aL c2] by blast
next
  case (SubsNil n d s)
  then show ?case by simp
next
  case (SubsOmitted c d s s1 n cs s2)
  have "count_list (nodeIds s1) (tn_id (objs H B)) \<le> 1"
    using SubsOmitted(2) SubsOmitted.prems by auto
  then show ?case using SubsOmitted(4) SubsOmitted.prems by auto
next
  case (SubsLinked c d s s1 sub n cs s2)
  have "count_list (nodeIds s1) (tn_id (objs H B)) \<le> 1"
    using SubsLinked(2) SubsLinked.prems by auto
  then show ?case using SubsLinked(4) SubsLinked.prems by auto
qed


lemma aliasLinked_mono:
  "aliasLinked a b s \<Longrightarrow> set (d3Links s) \<subseteq> set (d3Links s') \<Longrightarrow> aliasLinked a b s'"
  by (auto simp: aliasLinked_def list_ex_iff)

lemma aliasLinked_pushLink:
  "d3_id x = a \<Longrightarrow> d3_id y = b \<Longrightarrow> aliasLinked a b (pushLink x y True s)"
  by (simp add: aliasLinked_def list_ex_iff)

lemma aliasPending_pushNode:
  "aliasPending a b s \<Longrightarrow> d3_id n \<noteq> b \<Longrightarrow> aliasPending a b (pushNode n s)"
  by (auto simp: aliasPending_def aliasLinked_def)

lemma aliasPending_pushLink:
  "aliasPending a b s \<Longrightarrow> aliasPending a b (pushLink x y f s)"
  by (auto simp: aliasPending_def aliasLinked_def list_ex_iff)

lemma aliasPending_linked: "aliasLinked a b s \<Longrightarrow> aliasPending a b s"
  by (simp add: aliasPending_def)

lemma joined_in_nodes:
  "linksClosed s \<Longrightarrow> list_ex (joins a b) (d3Links s) \<Longrightarrow> b \<in> set (nodeIds s)"
  by (auto simp: linksClosed_def list_ex_iff joins_def)

lemma aliasLinked_in_nodes:
  "linksClosed s \<Longrightarrow> aliasLinked a b s \<Longrightarrow> b \<in> set (nodeIds s)"
  by (auto simp: linksClosed_def list_ex_iff aliasLinked_def)

lemma subReach_cases:
  "subReach H k r x \<Longrightarrow>
     x = r \<or> (\<exists>k' c. k = Suc k' \<and> c \<in> set (subThoughts (objs H r)) \<and> subReach H k' c x)"
  by (cases k) (auto simp: list_ex_iff)

lemma reach_step:
  assumes subs: "\<forall>c\<in>set (subThoughts (objs H r)). \<forall>k.
        subReach H k c A \<and> int (d + 1 + k) \<le> md \<longrightarrow> aliasLinked a b s2"
    and mono: "set (d3Links s2) \<subseteq> set (d3Links s')"
    and self: "r = A \<Longrightarrow> aliasLinked a b s'"
  shows "\<forall>k. subReach H k r A \<and> int (d + k) \<le> md \<longrightarrow> aliasLinked a b s'"
proof (intro allI impI)
  fix k assume k: "subReach H k r A \<and> int (d + k) \<le> md"
  from subReach_cases [of H k r A] k consider "A = r"
    | k' c where "k = Suc k'" "c \<in> set (subThoughts (objs H r))" "subReach H k' c A"
    by blast
  then show "aliasLinked a b s'"
  proof cases
    case 1
    then show ?thesis using self by simp
  next
    case 2
    then have "aliasLinked a b s2" using subs k by auto
    then show ?thesis using mono by (rule aliasLinked_mono)
  qed
qed

lemma visit_alias:
  assumes cl: "closedUnder H L" and ao: "aliasOnly H L A B"
  shows "visit H md r d s s' res \<Longrightarrow> r \<in> L \<Longrightarrow> r \<noteq> B \<Longrightarrow> linksClosed s \<Longrightarrow>
      aliasPending (tn_id (objs H A)) (tn_id (objs H B)) s \<Longrightarrow>
      aliasPending (tn_id (objs H A)) (tn_id (objs H B)) s' \<and>
      (\<forall>k. subReach H k r A \<and> int (d + k) \<le> md \<longrightarrow>
         aliasLinked (tn_id (objs H A)) (tn_id (objs H B)) s')"
  and "visitSubs H md n cs d s s'' \<Longrightarrow> set cs \<subseteq> L \<Longrightarrow> B \<notin> set cs \<Longrightarrow>
      d3_id n \<in> set (nodeIds s) \<Longrightarrow> linksClosed s \<Longrightarrow>
      aliasPending (tn_id (objs H A)) (tn_id (objs H B)) s \<Longrightarrow>
      aliasPending (tn_id (objs H A)) (tn_id (objs H B)) s'' \<and>
      (\<forall>c\<in>set cs. \<forall>k. subReach H k c A \<and> int (d + 1 + k) \<le> md \<longrightarrow>
         aliasLinked (tn_id (objs H A)) (tn_id (objs H B)) s'')"
proof (induction rule: visit_visitSubs.inducts)
  case (Deep d r s)
  then show ?case by auto
next
  case (NoAlias d r s s2)
  let ?s1 = "pushNode (mkD3Node r (objs H r)) s"
  have idr: "tn_id (objs H r) \<noteq> tn_id (objs H B)"
    using aliasOnly_id [OF ao NoAlias.prems(1)] NoAlias.prems(2) by blast
  have p1: "aliasPending (tn_id (objs H A)) (tn_id (objs H B)) ?s1"
    using NoAlias.prems(4) idr by (simp add: aliasPending_pushNode)
  have ih: "aliasPending (tn_id (objs H A)) (tn_id (objs H B)) s2 \<and>
      (\<forall>c\<in>set (subThoughts (objs H r)). \<forall>k. subReach H k c A \<and> int (d + 1 + k) \<le> md \<longrightarrow>
         aliasLinked (tn_id (objs H A)) (tn_id (objs H B)) s2)"
    using closedUnder_sub [OF cl NoAlias.prems(1)] aliasOnly_sub [OF ao NoAlias.prems(1)]
      NoAlias.prems(3) p1
    by (intro NoAlias(4)) (simp_all add: linksClosed_pushNode)
  have "r \<noteq> A" using NoAlias(2) aliasOnly_alias [OF ao] by auto
  then show ?case using ih reach_step [of H r A d md _ _ s2 s2] by blast
next
  case (Linked d r a s s2)
  let ?s1 = "pushNode (mkD3Node r (objs H r)) s"
  have idr: "tn_id (objs H r) \<noteq> tn_id (objs H B)"
    using aliasOnly_id [OF ao Linked.prems(1)] Linked.prems(2) by blast
  have p1: "aliasPending (tn_id (objs H A)) (tn_id (objs H B)) ?s1"
    using Linked.prems(4) idr by (simp add: aliasPending_pushNode)
  have ih: "aliasPending (tn_id (objs H A)) (tn_id (objs H B)) s2 \<and>
      (\<forall>c\<in>set (subThoughts (objs H r)). \<forall>k. subReach H k c A \<and> int (d + 1 + k) \<le> md \<longrightarrow>
         aliasLinked (tn_id (objs H A)) (tn_id (objs H B)) s2)"
    using closedUnder_sub [OF cl Linked.prems(1)] aliasOnly_sub [OF ao Linked.prems(1)]
      Linked.prems(3) p1
    by (intro Linked(4)) (simp_all add: linksClosed_pushNode)
  have c2: "linksClosed s2"
    using visitSubs_linksClosed [OF Linked(3)] Linked.prems(3) by (simp add: linksClosed_pushNode)
  have self: "aliasLinked (tn_id (objs H A)) (tn_id (objs H B)) s2" if "r = A"
  proof -
    have "a = B" using that Linked(2) aliasOnly_alias [OF ao] by simp
    then have "tn_id (objs H B) \<in> set (nodeIds s2)"
      using joined_in_nodes [OF c2 Linked(5)] by simp
    then show ?thesis using ih by (simp add: aliasPending_def)
  qed
  show ?case using ih reach_step [of H r A d md _ _ s2 s2] self by blast
next
  case (Found d r a s s2 n)
  let ?s1 = "pushNode (mkD3Node r (objs H r)) s"
  let ?s' = "pushLink (mkD3Node r (objs H r)) n True s2"
  have idr: "tn_id (objs H r) \<noteq> tn_id (objs H B)"
    using aliasOnly_id [OF ao Found.prems(1)] Found.prems(2) by blast
  have p1: "aliasPending (tn_id (objs H A)) (tn_id (objs H B)) ?s1"
    using Found.prems(4) idr by (simp add: aliasPending_pushNode)
  have ih: "aliasPending (tn_id (objs H A)) (tn_id (objs H B)) s2 \<and>
      (\<forall>c\<in>set (subThoughts (objs H r)). \<forall>k. subReach H k c A \<and> int (d + 1 + k) \<le> md \<longrightarrow>
         aliasLinked (tn_id (objs H A)) (tn_id (objs H B)) s2)"
    using closedUnder_sub [OF cl Found.prems(1)] aliasOnly_sub [OF ao Found.prems(1)]
      Found.prems(3) p1
    by (intro Found(4)) (simp_all add: linksClosed_pushNode)
  have self: "aliasLinked (tn_id (objs H A)) (tn_id (objs H B)) ?s'" if "r = A"
  proof -
    have "a = B" using that Found(2) aliasOnly_alias [OF ao] by simp
    then have "d3_id n = tn_id (objs H B)" using find_Some_id [OF Found(6)] by simp
    then show ?thesis using that by (simp add: aliasLinked_pushLink)
  qed
  have mono: "set (d3Links s2) \<subseteq> set (d3Links ?s')" by auto
  have "aliasPending (tn_id (objs H A)) (tn_id (objs H B)) ?s'"
    using ih by (simp add: aliasPending_pushLink)
  then show ?case using ih reach_step [of H r A d md _ _ s2 ?s', OF _ mono] self by blast
next
  case (Visited d r a s s2 s3 n)
  let ?s1 = "pushNode (mkD3Node r (objs H r)) s"
  let ?s' = "pushLink (mkD3Node r (objs H r)) n True s3"
  have idr: "tn_id (objs H r) \<noteq> tn_id (objs H B)"
    using aliasOnly_id [OF ao Visited.prems(1)] Visited.prems(2) by blast
  have p1: "aliasPending (tn_id (objs H A)) (tn_id (objs H B)) ?s1"
    using Visited.prems(4) idr by (simp add: aliasPending_pushNode)
  have ih: "aliasPending (tn_id (objs H A)) (tn_id (objs H B)) s2 \<and>
      (\<forall>c\<in>set (subThoughts (objs H r)). \<forall>k. subReach H k c A \<and> int (d + 1 + k) \<le> md \<longrightarrow>
         aliasLinked (tn_id (objs H A)) (tn_id (objs H B)) s2)"
    using closedUnder_sub [OF cl Visited.prems(1)] aliasOnly_sub [OF ao Visited.prems(1)]
      Visited.prems(3) p1
    by (intro Visited(4)) (simp_all add: linksClosed_pushNode)
  have c2: "linksClosed s2"
    using visitSubs_linksClosed [OF Visited(3)] Visited.prems(3) by (simp add: linksClosed_pushNode)
  have aL: "a \<in> L" using closedUnder_alias [OF cl Visited.prems(1) Visited(2)] .
  have idn: "d3_id n = tn_id (objs H a)" using visit_Some_id [OF Visited(7)] by blast
  have self: "aliasLinked (tn_id (objs H A)) (tn_id (objs H B)) ?s'" if "r = A"
  proof -
    have "a = B" using that Visited(2) aliasOnly_alias [OF ao] by simp
    then show ?thesis using that idn by (simp add: aliasLinked_pushLink)
  qed
  have mono: "set (d3Links s2) \<subseteq> set (d3Links ?s')"
    using visit_links_mono [OF Visited(7)] by auto
  have "aliasPending (tn_id (objs H A)) (tn_id (objs H B)) ?s'"
  proof (cases "a = B")
    case True
    then have "r = A" using aliasOnly_only [OF ao Visited.prems(1)] Visited(2) by simp
    then show ?thesis using self by (simp add: aliasPending_linked)
  next
    case False
    have "aliasPending (tn_id (objs H A)) (tn_id (objs H B)) s3"
      using Visited(8) [OF aL False c2] ih by blast
    then show ?thesis by (simp add: aliasPending_pushLink)
  qed
  then show ?case using ih reach_step [of H r A d md _ _ s2 ?s', OF _ mono] self by blast
next
  case (Skipped d r a s s2 s3)
  then show ?case using visit_None [OF Skipped(7)] by simp
next
  case (SubsNil n d s)
  then show ?case by simp
next
  case (SubsOmitted c d s s1 n cs s2)
  have e: "s1 = s" "md < int (d + 1)" using visit_None [OF SubsOmitted(1)] by simp_all
  have ih: "aliasPending (tn_id (objs H A)) (tn_id (objs H B)) s2 \<and>
      (\<forall>c\<in>set cs. \<forall>k. subReach H k c A \<and> int (d + 1 + k) \<le> md \<longrightarrow>
         aliasLinked (tn_id (objs H A)) (tn_id (objs H B)) s2)"
    using SubsOmitted.prems e by (intro SubsOmitted(4)) simp_all
  then show ?case using e(2) by auto
next
  case (SubsLinked c d s s1 sub n cs s2)
  have cL: "c \<in> L" "c \<noteq> B" using SubsLinked.prems(1,2) by auto
  have ih1: "aliasPending (tn_id (objs H A)) (tn_id (objs H B)) s1 \<and>
      (\<forall>k. subReach H k c A \<and> int (d + 1 + k) \<le> md \<longrightarrow>
         aliasLinked (tn_id (objs H A)) (tn_id (objs H B)) s1)"
    using SubsLinked(2) [OF cL SubsLinked.prems(4,5)] by simp
  let ?s1 = "pushLink n sub False s1"
  have n1: "d3_id n \<in> set (nodeIds s1)"
    using visit_ids_mono [OF SubsLinked(1)] SubsLinked.prems(3) by auto
  have sub1: "d3_id sub \<in> set (nodeIds s1)" using visit_Some_id [OF SubsLinked(1)] by blast
  have c1: "linksClosed ?s1"
    using visit_linksClosed [OF SubsLinked(1) SubsLinked.prems(4)] n1 sub1
    by (simp add: linksClosed_pushLink)
  have ih2: "aliasPending (tn_id (objs H A)) (tn_id (objs H B)) s2 \<and>
      (\<forall>c\<in>set cs. \<forall>k. subReach H k c A \<and> int (d + 1 + k) \<le> md \<longrightarrow>
         aliasLinked (tn_id (objs H A)) (tn_id (objs H B)) s2)"
    using SubsLinked.prems(1,2) n1 c1 ih1
    by (intro SubsLinked(4)) (simp_all add: aliasPending_pushLink)
  have mono: "set (d3Links s1) \<subseteq> set (d3Links s2)"
    using visitSubs_links_mono [OF SubsLinked(3)] by auto
  have "\<forall>k. subReach H k c A \<and> int (d + 1 + k) \<le> md \<longrightarrow>
         aliasLinked (tn_id (objs H A)) (tn_id (objs H B)) s2"
    using ih1 mono by (blast intro: aliasLinked_mono)
  then show ?case using ih2 by simp
qed


lemma forEachRoot_alias:
  assumes cl: "closedUnder H L" and ao: "aliasOnly H L A B"
  shows "forEachRoot f md rs s = Some s' \<Longrightarrow> heap s = H \<Longrightarrow> set rs \<subseteq> L \<Longrightarrow> B \<notin> set rs \<Longrightarrow>
    linksClosed s \<Longrightarrow> aliasPending (tn_id (objs H A)) (tn_id (objs H B)) s \<Longrightarrow>
    count_list (nodeIds s) (tn_id (objs H B)) \<le> 1 \<Longrightarrow>
    linksClosed s' \<and> count_list (nodeIds s') (tn_id (objs H B)) \<le> 1 \<and>
    (aliasLinked (tn_id (objs H A)) (tn_id (objs H B)) s \<or>
       (\<exists>r\<in>set rs. \<exists>k. subReach H k r A \<and> int k \<le> md) \<longrightarrow>
     aliasLinked (tn_id (objs H A)) (tn_id (objs H B)) s')"
proof (induction rs arbitrary: s)
  case Nil
  then show ?case by simp
next
  case (Cons r rs)
  from Cons.prems(1) obtain s1 res where
    p: "processNode f md r 0 s = Some (s1, res)" and q: "forEachRoot f md rs s1 = Some s'"
    by (auto split: option.splits)
  have v: "visit H md r 0 s s1 res" using processNode_visit [OF p] Cons.prems(2) by simp
  have h1: "heap s1 = H" using processNode_heap [OF p] Cons.prems(2) by simp
  have rL: "r \<in> L" "r \<noteq> B" "set rs \<subseteq> L" "B \<notin> set rs" using Cons.prems(3,4) by auto
  have c1: "linksClosed s1" using visit_linksClosed [OF v Cons.prems(5)] .
  have a1: "aliasPending (tn_id (objs H A)) (tn_id (objs H B)) s1"
    and r1: "\<forall>k. subReach H k r A \<and> int (0 + k) \<le> md \<longrightarrow>
         aliasLinked (tn_id (objs H A)) (tn_id (objs H B)) s1"
    using visit_alias(1) [OF cl ao v rL(1,2) Cons.prems(5,6)] by simp_all
  have n1: "count_list (nodeIds s1) (tn_id (objs H B)) \<le> 1"
    using visit_count(1) [OF cl ao v rL(1) Cons.prems(7)] rL(2) by simp
  have m1: "aliasLinked (tn_id (objs H A)) (tn_id (objs H B)) s \<Longrightarrow>
      aliasLinked (tn_id (objs H A)) (tn_id (objs H B)) s1"
    using visit_links_mono [OF v] by (rule aliasLinked_mono [rotated])
  from Cons.IH [OF q h1 rL(3,4) c1 a1 n1] r1 m1 show ?case by auto
qed

section \<open>Aliases to the node's own subThoughts\<close>

lemma structLinked_mono:
  "structLinked n b s \<Longrightarrow> set (d3Links s) \<subseteq> set (d3Links s') \<Longrightarrow> structLinked n b s'"
  by (auto simp: structLinked_def)

lemma structLinked_joins:
  "structLinked n b s \<Longrightarrow> list_ex (joins (d3_id n) b) (d3Links s)"
  by (auto simp: structLinked_def list_ex_iff joins_def)

lemma visit_child_linked:
  "visit H md r d s s' res \<Longrightarrow> True"
  and visitSubs_child_linked:
  "visitSubs H md n cs d s s'' \<Longrightarrow> a \<in> set cs \<Longrightarrow> int (d + 1) \<le> md \<Longrightarrow>
     structLinked n (tn_id (objs H a)) s''"
proof (induction rule: visit_visitSubs.inducts)
  case (SubsNil n d s)
  then show ?case by simp
next
  case (SubsOmitted c d s s1 n cs s2)
  have "c \<noteq> a" using visit_None [OF SubsOmitted(1)] SubsOmitted.prems(2) by auto
  then show ?case using SubsOmitted by simp
next
  case (SubsLinked c d s s1 sub n cs s2)
  show ?case
  proof (cases "c = a")
    case True
    have "d3_id sub = tn_id (objs H a)" using visit_Some_id [OF SubsLinked(1)] True by blast
    then have "structLinked n (tn_id (objs H a)) (pushLink n sub False s1)"
      by (simp add: structLinked_def)
    then show ?thesis using visitSubs_links_mono [OF SubsLinked(3)] by (rule structLinked_mono)
  next
    case False
    then show ?thesis using SubsLinked by simp
  qed
qed simp_all

lemma processNode_alias_child:
  assumes run: "processNode (Suc f) md r d s = Some (s', res)"
    and below: "int d < md"
    and ali: "aliasNode (objs (heap s) r) = Some a"
    and child: "a \<in> set (subThoughts (objs (heap s) r))"
  shows "forEachSub f md (mkD3Node r (objs (heap s) r)) (subThoughts (objs (heap s) r)) d
           (pushNode (mkD3Node r (objs (heap s) r)) s) = Some s'
    \<and> structLinked (mkD3Node r (objs (heap s) r)) (tn_id (objs (heap s) a)) s'"
proof -
  let ?n = "mkD3Node r (objs (heap s) r)"
  have linked: "structLinked ?n (tn_id (objs (heap s) a)) s2
      \<and> list_ex (joins (tn_id (objs (heap s) r)) (tn_id (objs (heap s2) a))) (d3Links s2)"
    if sub: "forEachSub f md ?n (subThoughts (objs (heap s) r)) d (pushNode ?n s) = Some s2"
    for s2
  proof -
    have h: "heap s2 = heap s" using forEachSub_heap [OF sub] by simp
    have "visitSubs (heap s) md ?n (subThoughts (objs (heap s) r)) d (pushNode ?n s) s2"
      using forEachSub_visitSubs [OF sub] by simp
    moreover have "int (d + 1) \<le> md" using below by simp
    ultimately have "structLinked ?n (tn_id (objs (heap s) a)) s2"
      using child by (intro visitSubs_child_linked)
    then show ?thesis using structLinked_joins [of ?n "tn_id (objs (heap s) a)" s2] h by simp
  qed
  from run show ?thesis
  proof (cases rule: processNode_SucE)
    case Deep
    then show ?thesis using below by simp
  next
    case NoAlias
    then show ?thesis using ali by simp
  next
    case (Linked b)
    then show ?thesis using linked [OF Linked(4)] by simp
  next
    case (Found b s2 n)
    then show ?thesis using linked [OF Found(4)] ali by simp
  next
    case (Visited b s2 s3 n)
    then show ?thesis using linked [OF Visited(4)] ali by simp
  next
    case (Skipped b s2)
    then show ?thesis using linked [OF Skipped(4)] ali by simp
  qed
qed

lemma aliasOk_pushNode: "aliasOk H roots md s \<Longrightarrow> aliasOk H roots md (pushNode n s)"
  by (simp add: aliasOk_def)

lemma aliasOk_pushLink_sub: "aliasOk H roots md s \<Longrightarrow> aliasOk H roots md (pushLink n m False s)"
  by (simp add: aliasOk_def aliasLinkOk_def)

lemma aliasOk_pushLink_alias:
  assumes "aliasOk H roots md s" "visibleAt H roots d r" "\<not> md < int d"
    and "aliasNode (objs H r) = Some a" "d3_id m = tn_id (objs H a)"
    and "a \<in> set (subThoughts (objs H r)) \<longrightarrow> int d = md"
  shows "aliasOk H roots md (pushLink (mkD3Node r (objs H r)) m True s)"
proof -
  have "aliasLinkOk H roots md \<lparr> source = mkD3Node r (objs H r), target = m, isAlias = True \<rparr>"
    unfolding aliasLinkOk_def using assms(2-6)
    by (intro impI exI [of _ d] exI [of _ a]) simp
  then show ?thesis using assms(1) by (simp add: aliasOk_def)
qed

lemma unlinked_child_at_bound:
  assumes "visitSubs H md (mkD3Node r (objs H r)) (subThoughts (objs H r)) d s1 s2"
    and "\<not> list_ex (joins (tn_id (objs H r)) (tn_id (objs H a))) (d3Links s2)"
    and "\<not> md < int d"
  shows "a \<in> set (subThoughts (objs H r)) \<longrightarrow> int d = md"
proof
  assume a: "a \<in> set (subThoughts (objs H r))"
  show "int d = md"
  proof (rule ccontr)
    assume "int d \<noteq> md"
    then have "int (d + 1) \<le> md" using assms(3) by simp
    from visitSubs_child_linked [OF assms(1) a this]
    have "list_ex (joins (tn_id (objs H r)) (tn_id (objs H a))) (d3Links s2)"
      using structLinked_joins by fastforce
    then show False using assms(2) by simp
  qed
qed

lemma visit_aliasOk:
  "visit H md r d s s' res \<Longrightarrow> visibleAt H roots d r \<Longrightarrow> aliasOk H roots md s \<Longrightarrow>
     aliasOk H roots md s'"
  and visitSubs_aliasOk:
  "visitSubs H md n cs d s s'' \<Longrightarrow> visibleAt H roots d (originalNode n) \<Longrightarrow>
     set cs \<subseteq> set (subThoughts (objs H (originalNode n))) \<Longrightarrow> aliasOk H roots md s \<Longrightarrow>
     aliasOk H roots md s''"
proof (induction rule: visit_visitSubs.inducts)
  case (Deep d r s)
  then show ?case by simp
next
  case (NoAlias d r s s2)
  then show ?case by (simp add: aliasOk_pushNode)
next
  case (Linked d r a s s2)
  then show ?case by (simp add: aliasOk_pushNode)
next
  case (Found d r a s s2 n)
  have ok2: "aliasOk H roots md s2" using Found by (simp add: aliasOk_pushNode)
  have idn: "d3_id n = tn_id (objs H a)" using find_Some_id [OF Found(6)] by simp
  show ?case
    using ok2 Found.prems(1) Found(1) Found(2) idn unlinked_child_at_bound [OF Found(3) Found(5) Found(1)]
    by (rule aliasOk_pushLink_alias)
next
  case (Visited d r a s s2 s3 n)
  have va: "visibleAt H roots d a" using Visited.prems(1) Visited(2) by (rule vis_alias)
  have ok3: "aliasOk H roots md s3" using Visited va by (simp add: aliasOk_pushNode)
  have idn: "d3_id n = tn_id (objs H a)" using visit_Some_id [OF Visited(7)] by blast
  show ?case
    using ok3 Visited.prems(1) Visited(1) Visited(2) idn
      unlinked_child_at_bound [OF Visited(3) Visited(5) Visited(1)]
    by (rule aliasOk_pushLink_alias)
next
  case (Skipped d r a s s2 s3)
  have "visibleAt H roots d a" using Skipped.prems(1) Skipped(2) by (rule vis_alias)
  then show ?case using Skipped by (simp add: aliasOk_pushNode)
next
  case (SubsNil n d s)
  then show ?case by simp
next
  case (SubsOmitted c d s s1 n cs s2)
  have "visibleAt H roots (Suc d) c" using SubsOmitted.prems(1,2) by (auto intro: vis_sub)
  then show ?case using SubsOmitted by simp
next
  case (SubsLinked c d s s1 sub n cs s2)
  have v: "visibleAt H roots (Suc d) c" using SubsLinked.prems(1,2) by (auto intro: vis_sub)
  have "aliasOk H roots md s1" using SubsLinked(2) v SubsLinked.prems(3) by simp
  then have "aliasOk H roots md (pushLink n sub False s1)" by (rule aliasOk_pushLink_sub)
  then show ?case using SubsLinked by simp
qed

lemma forEachRoot_aliasOk:
  "forEachRoot f md rs s = Some s' \<Longrightarrow> set rs \<subseteq> set roots \<Longrightarrow> aliasOk (heap s) roots md s \<Longrightarrow>
   aliasOk (heap s) roots md s'"
proof (induction rs arbitrary: s)
  case Nil
  then show ?case by simp
next
  case (Cons r rs)
  from Cons.prems(1) obtain s1 res where
    p: "processNode f md r 0 s = Some (s1, res)" and q: "forEachRoot f md rs s1 = Some s'"
    by (auto split: option.splits)
  have h: "heap s1 = heap s" using processNode_heap [OF p] .
  have "visibleAt (heap s) roots 0 r" using Cons.prems(2) by (auto intro: vis_root)
  from visit_aliasOk [OF processNode_visit [OF p] this Cons.prems(3)]
  have "aliasOk (heap s1) roots md s1" using h by simp
  from Cons.IH [OF q _ this] Cons.prems(2) h show ?case by simp
qed

lemma flatten_aliasOk:
  assumes "flatten f st md roots = Some out"
  shows "aliasOk st roots md out"
  using forEachRoot_aliasOk [of f md roots "\<lparr> heap = st, d3Nodes = [], d3Links = [] \<rparr>" out roots] assms
  by (simp add: flatten_def aliasOk_def)

lemma aliasChildStore_visible:
  "visibleAt aliasChildStore [0] k x \<Longrightarrow> (x = 0 \<and> k = 0) \<or> x = 1"
  by (induction rule: visibleAt.induct)
    (auto simp: aliasChildStore_def storeOf_def exampleNode_def newThoughtNode_def)

section \<open>Adding one to a number\<close>

declare doubleExponent.simps [simp del]

lemma doubleExponent_small: "n < 2 ^ 53 \<Longrightarrow> doubleExponent n = 0"
  by (subst doubleExponent.simps) simp

lemma doubleExponent_next: "2 ^ 53 \<le> n \<Longrightarrow> n < 2 ^ 54 \<Longrightarrow> doubleExponent n = 1"
  by (subst doubleExponent.simps) (simp add: doubleExponent_small)

lemma roundToDouble_exact:
  assumes "\<bar>v\<bar> \<le> 2 ^ 53"
  shows "roundToDouble v = v"
proof (cases "\<bar>v\<bar> < 2 ^ 53")
  case True
  then have "doubleExponent (nat \<bar>v\<bar>) = 0" by (intro doubleExponent_small) simp
  then show ?thesis by (simp add: roundToDouble_def)
next
  case False
  then have v: "v = 2 ^ 53 \<or> v = - (2 ^ 53)" using assms by auto
  then have n: "nat \<bar>v\<bar> = 2 ^ 53" by auto
  have "doubleExponent (2 ^ 53) = 1" by (rule doubleExponent_next) simp_all
  then have "doubleExponent (nat \<bar>v\<bar>) = 1" using n by simp
  then show ?thesis using v by (auto simp: roundToDouble_def)
qed

lemma numberAdd_one_exact:
  "- (2 ^ 53) \<le> d \<Longrightarrow> d < 2 ^ 53 \<Longrightarrow> numberAdd d 1 = d + 1"
  unfolding numberAdd_def by (rule roundToDouble_exact) simp

lemma numberAdd_one_rounds: "numberAdd (2 ^ 53) 1 = 2 ^ 53"
proof -
  have "doubleExponent (nat \<bar>2 ^ 53 + 1 :: int\<bar>) = 1" by (intro doubleExponent_next) simp_all
  then show ?thesis by (simp add: numberAdd_def roundToDouble_def)
qed

section \<open>createSelfReference\<close>

text \<open>
  Claim C8, as stated: for every ThoughtNode the new node's \<open>recursionDepth\<close> would be
  the old one plus one. At \<open>recursionDepth = 2^53\<close>, which the constructor accepts, the
  sum \<open>2^53 + 1\<close> is not a double and rounds back to \<open>2^53\<close>.
\<close>

theorem createSelfReference_depth_counterexample:
  "recursionDepth (metadata (objs (storeOf [deepNode ''a'' (2 ^ 53)]) 0)) = 2 ^ 53
   \<and> snd (createSelfReference 7 (storeOf [deepNode ''a'' (2 ^ 53)]) 0) = 1
   \<and> recursionDepth (metadata
        (objs (fst (createSelfReference 7 (storeOf [deepNode ''a'' (2 ^ 53)]) 0)) 1)) = 2 ^ 53"
  using numberAdd_one_rounds
  by (simp add: createSelfReference_def alloc_def storeOf_def deepNode_def newThoughtNode_def
      Let_def)

text \<open>
  Claim C8, amended. For every existing ThoughtNode \<open>this\<close>, \<open>createSelfReference\<close> returns
  a newly allocated node, distinct from \<open>this\<close>, whose type is \<open>recursive-reference\<close> and
  whose \<open>aliasNode\<close> is \<open>this\<close>; when the \<open>recursionDepth\<close> of \<open>this\<close> is an integer \<open>d\<close>
  with \<open>-2^53 \<le> d < 2^53\<close>, that of the new node is \<open>d + 1\<close>; no existing node, \<open>this\<close>
  included, is modified.
\<close>

theorem createSelfReference_new_node:
  assumes "this < nextRef st"
    and "createSelfReference now st this = (st', selfRef)"
  shows "selfRef \<noteq> this \<and> \<not> selfRef < nextRef st \<and> selfRef < nextRef st'
    \<and> tn_type (objs st' selfRef) = RECURSIVE_REFERENCE
    \<and> aliasNode (objs st' selfRef) = Some this
    \<and> (- (2 ^ 53) \<le> recursionDepth (metadata (objs st this))
         \<and> recursionDepth (metadata (objs st this)) < 2 ^ 53 \<longrightarrow>
       recursionDepth (metadata (objs st' selfRef)) = recursionDepth (metadata (objs st this)) + 1)
    \<and> (\<forall>r. r < nextRef st \<longrightarrow> objs st' r = objs st r)"
  using assms
  by (auto simp: createSelfReference_def alloc_def newThoughtNode_def Let_def numberAdd_one_exact)

theorem createSelfReference_new_node_witness:
  "(0::nat) < nextRef (storeOf [exampleNode ''a'' [] None]) \<and>
   snd (createSelfReference 7 (storeOf [exampleNode ''a'' [] None]) 0) = 1 \<and>
   tn_type (objs (fst (createSelfReference 7 (storeOf [exampleNode ''a'' [] None]) 0)) 1)
     = RECURSIVE_REFERENCE \<and>
   aliasNode (objs (fst (createSelfReference 7 (storeOf [exampleNode ''a'' [] None]) 0)) 1) = Some 0 \<and>
   recursionDepth (metadata (objs (storeOf [exampleNode ''a'' [] None]) 0)) = 0 \<and>
   recursionDepth (metadata (objs (fst (createSelfReference 7 (storeOf [exampleNode ''a'' [] None]) 0)) 1)) = 1 \<and>
   objs (fst (createSelfReference 7 (storeOf [exampleNode ''a'' [] None]) 0)) 0 = exampleNode ''a'' [] None"
proof -
  let ?st = "storeOf [exampleNode ''a'' [] None]"
  have live: "(0::nat) < nextRef ?st" by (simp add: storeOf_def)
  have r: "snd (createSelfReference 7 ?st 0) = 1"
    by (simp add: createSelfReference_def alloc_def storeOf_def Let_def)
  have e: "createSelfReference 7 ?st 0 = (fst (createSelfReference 7 ?st 0), 1)"
    using r by (metis prod.collapse)
  have o: "objs ?st 0 = exampleNode ''a'' [] None" by (simp add: storeOf_def)
  have d: "recursionDepth (metadata (exampleNode ''a'' [] None)) = 0"
    by (simp add: exampleNode_def newThoughtNode_def)
  from createSelfReference_new_node [OF live e] live r o d show ?thesis by simp
qed

text \<open>
  Claim C10. The node returned by \<open>createSelfReference\<close> has the id of \<open>this\<close> followed by
  \<open>-self-ref\<close>, and its metadata copies \<open>createdAt\<close>, \<open>evaluationStatus\<close> and
  \<open>memoizationKey\<close>; two calls on the same node give two distinct nodes with the same id.
\<close>

theorem createSelfReference_twice:
  assumes "this < nextRef st"
    and "createSelfReference now1 st this = (st1, ref1)"
    and "createSelfReference now2 st1 this = (st2, ref2)"
  shows "ref1 \<noteq> ref2
    \<and> tn_id (objs st1 ref1) = tn_id (objs st this) @ ''-self-ref''
    \<and> createdAt (metadata (objs st1 ref1)) = createdAt (metadata (objs st this))
    \<and> evaluationStatus (metadata (objs st1 ref1)) = evaluationStatus (metadata (objs st this))
    \<and> memoizationKey (metadata (objs st1 ref1)) = memoizationKey (metadata (objs st this))
    \<and> tn_id (objs st2 ref1) = tn_id (objs st this) @ ''-self-ref''
    \<and> tn_id (objs st2 ref2) = tn_id (objs st2 ref1)"
  using assms by (auto simp: createSelfReference_def alloc_def newThoughtNode_def Let_def)

theorem createSelfReference_twice_witness:
  "(0::nat) < nextRef (storeOf [exampleNode ''a'' [] None]) \<and>
   snd (createSelfReference 7 (storeOf [exampleNode ''a'' [] None]) 0) = 1 \<and>
   snd (createSelfReference 8 (fst (createSelfReference 7 (storeOf [exampleNode ''a'' [] None]) 0)) 0) = 2 \<and>
   tn_id (objs (fst (createSelfReference 8 (fst (createSelfReference 7 (storeOf [exampleNode ''a'' [] None]) 0)) 0)) 1) = ''a-self-ref'' \<and>
   tn_id (objs (fst (createSelfReference 8 (fst (createSelfReference 7 (storeOf [exampleNode ''a'' [] None]) 0)) 0)) 2) = ''a-self-ref''"
proof -
  let ?st = "storeOf [exampleNode ''a'' [] None]"
  let ?c1 = "createSelfReference 7 ?st 0"
  let ?c2 = "createSelfReference 8 (fst ?c1) 0"
  have live: "(0::nat) < nextRef ?st" by (simp add: storeOf_def)
  have r1: "snd ?c1 = 1"
    by (simp add: createSelfReference_def alloc_def storeOf_def Let_def)
  have r2: "snd ?c2 = 2"
    by (simp add: createSelfReference_def alloc_def storeOf_def Let_def)
  have e1: "?c1 = (fst ?c1, 1)" using r1 by (metis prod.collapse)
  have e2: "?c2 = (fst ?c2, 2)" using r2 by (metis prod.collapse)
  have o: "tn_id (objs ?st 0) = ''a''"
    by (simp add: storeOf_def exampleNode_def newThoughtNode_def)
  from createSelfReference_twice [OF live e1 e2] live r1 r2 o show ?thesis by simp
qed


section \<open>Properties of the flattening pass\<close>

text \<open>
  Claim C6. The pass is pure with respect to its input: when it returns, the store of
  ThoughtNode objects (every field of every node) is the one it started with.
\<close>

theorem flatten_pure:
  "flatten fuel st maxVisibleDepth rootThoughts = Some out \<Longrightarrow> heap out = st"
  using forEachRoot_heap [of fuel maxVisibleDepth rootThoughts _ out] by (simp add: flatten_def)

theorem flatten_pure_witness:
  "flatten 3 (storeOf [exampleNode ''p'' [1] None, exampleNode ''c'' [] (Some 0)]) 5 [0] \<noteq> None \<and>
   heap (the (flatten 3 (storeOf [exampleNode ''p'' [1] None, exampleNode ''c'' [] (Some 0)]) 5 [0]))
     = storeOf [exampleNode ''p'' [1] None, exampleNode ''c'' [] (Some 0)]"
proof -
  let ?st = "storeOf [exampleNode ''p'' [1] None, exampleNode ''c'' [] (Some 0)]"
  have "flatten 3 ?st 5 [0] \<noteq> None" by (simp add: eval_defs numeral_nat)
  then obtain out where o: "flatten 3 ?st 5 [0] = Some out" by blast
  from flatten_pure [OF o] o show ?thesis by simp
qed

text \<open>
  Claim C7. The pass is deterministic: for a fixed forest and a fixed \<open>maxVisibleDepth\<close>,
  any two runs that return give the same output, hence the same set of node ids and the
  same set of links (end ids with the \<open>isAlias\<close> flag).
\<close>

theorem flatten_deterministic:
  assumes "flatten fuel1 st maxVisibleDepth rootThoughts = Some out1"
    and "flatten fuel2 st maxVisibleDepth rootThoughts = Some out2"
  shows "out1 = out2 \<and> set (nodeIds out1) = set (nodeIds out2)
      \<and> set (linkKeys out1) = set (linkKeys out2)"
proof -
  have "flatten (max fuel1 fuel2) st maxVisibleDepth rootThoughts = Some out1"
    using assms(1) forEachRoot_fuel_mono [of fuel1 _ _ _ out1 "max fuel1 fuel2"]
    by (simp add: flatten_def)
  moreover have "flatten (max fuel1 fuel2) st maxVisibleDepth rootThoughts = Some out2"
    using assms(2) forEachRoot_fuel_mono [of fuel2 _ _ _ out2 "max fuel1 fuel2"]
    by (simp add: flatten_def)
  ultimately show ?thesis by simp
qed


theorem flatten_deterministic_witness:
  "flatten 3 (storeOf [exampleNode ''a'' [] (Some 1), exampleNode ''b'' [] (Some 0)]) 5 [0] \<noteq> None \<and>
   flatten 4 (storeOf [exampleNode ''a'' [] (Some 1), exampleNode ''b'' [] (Some 0)]) 5 [0] =
   flatten 3 (storeOf [exampleNode ''a'' [] (Some 1), exampleNode ''b'' [] (Some 0)]) 5 [0]"
proof -
  let ?st = "storeOf [exampleNode ''a'' [] (Some 1), exampleNode ''b'' [] (Some 0)]"
  have "flatten 3 ?st 5 [0] \<noteq> None" by (simp add: eval_defs numeral_nat)
  then obtain o1 where o1: "flatten 3 ?st 5 [0] = Some o1" by blast
  have "flatten 4 ?st 5 [0] \<noteq> None" by (simp add: eval_defs numeral_nat)
  then obtain o2 where o2: "flatten 4 ?st 5 [0] = Some o2" by blast
  from flatten_deterministic [OF o1 o2] o1 o2 show ?thesis by simp
qed

text \<open>
  Claim C3. On a finite forest the pass returns, whatever the \<open>aliasNode\<close> references
  are (to an ancestor, to the node itself, in a cycle): for every finite closed set of
  nodes that holds the roots there is an amount of fuel from which the pass returns the
  same output. (Acyclic \<open>subThoughts\<close> are not needed: the depth bound stops the descent.)
\<close>

theorem flatten_terminates:
  assumes "finite L" and "closedUnder st L" and "set rootThoughts \<subseteq> L"
  shows "\<exists>fuel out. \<forall>fuel' \<ge> fuel. flatten fuel' st maxVisibleDepth rootThoughts = Some out"
  using flatten_returns [OF assms] .

theorem flatten_terminates_witness:
  "finite {0, 1, 2 :: nat} \<and>
   closedUnder (storeOf [exampleNode ''r'' [1, 2] None, exampleNode ''a'' [] (Some 2),
      exampleNode ''b'' [] (Some 1)]) {0, 1, 2} \<and>
   set [0 :: nat] \<subseteq> {0, 1, 2} \<and>
   (\<exists>fuel out. \<forall>fuel' \<ge> fuel.
      flatten fuel' (storeOf [exampleNode ''r'' [1, 2] None, exampleNode ''a'' [] (Some 2),
        exampleNode ''b'' [] (Some 1)]) 5 [0] = Some out)"
proof -
  let ?st = "storeOf [exampleNode ''r'' [1, 2] None, exampleNode ''a'' [] (Some 2),
      exampleNode ''b'' [] (Some 1)]"
  have f: "finite {0, 1, 2 :: nat}" by simp
  have c: "closedUnder ?st {0, 1, 2}"
    by (simp add: closedUnder_def storeOf_def exampleNode_def newThoughtNode_def)
  have r: "set [0 :: nat] \<subseteq> {0, 1, 2}" by simp
  from flatten_terminates [OF f c r, of 5] f c r show ?thesis by blast
qed


text \<open>
  Claim C1. The node list should hold at most one GraphNode per ThoughtNode id, also for
  a node reachable both as an alias target and as a child. The pass evaluated on a
  forest with unique ids and tree-shaped \<open>subThoughts\<close>: root \<open>r\<close> has the children \<open>c\<close>
  and \<open>d\<close>, and \<open>c.aliasNode = d\<close>. The node \<open>d\<close> is pushed when the alias of \<open>c\<close> is
  resolved and again when it is visited as a child of \<open>r\<close>: the node list holds two
  nodes of id \<open>d\<close>.
\<close>

theorem sibling_alias_duplicate_node:
  "map_option nodeIds
     (flatten 3 (storeOf [exampleNode ''r'' [1, 2] None, exampleNode ''c'' [] (Some 2),
        exampleNode ''d'' [] None]) 5 [0])
   = Some [''r'', ''c'', ''d'', ''d'']"
  by (simp add: eval_defs numeral_nat)

text \<open>
  Claim C2. The link list should hold at most one link between two ids, also when two
  nodes alias each other. The pass evaluated on such a pair: the existing-link check of
  \<open>a\<close> is made before \<open>b\<close> is visited, \<open>b\<close> then adds its link to \<open>a\<close>, and \<open>a\<close> adds its
  own after \<open>b\<close> returns: two links join \<open>a\<close> and \<open>b\<close>.
\<close>

theorem mutual_alias_two_links:
  "map_option linkKeys
     (flatten 3 (storeOf [exampleNode ''a'' [] (Some 1), exampleNode ''b'' [] (Some 0)]) 5 [0])
   = Some [(''b'', ''a'', True), (''a'', ''b'', True)]"
  by (simp add: eval_defs numeral_nat)


text \<open>
  Claim C9, as stated: a node whose \<open>aliasNode\<close> is its own tree parent would yield only
  the structural link. It does not: the child is processed before the parent pushes the
  structural link, so the child finds no link, finds the parent in the node list and
  pushes an alias link; the structural link follows.
\<close>

theorem alias_to_parent_counterexample:
  "map_option linkKeys (flatten 3 aliasParentStore 5 [0])
   = Some [(''c'', ''p'', True), (''p'', ''c'', False)]"
  by (simp add: eval_defs aliasParentStore_def numeral_nat)


text \<open>
  Claim C9, amended. When the alias of a node is processed (after its \<open>subThoughts\<close>) and
  a link of either kind, in either direction, already joins the node's id and the alias
  target's id, no link is added. In particular every visit of a node at a depth below
  \<open>maxVisibleDepth\<close> whose \<open>aliasNode\<close> is one of its own \<open>subThoughts\<close> pushes the
  structural link to that \<open>subThought\<close> and then adds no alias link: the state it returns
  is the one its loop over the \<open>subThoughts\<close> leaves. And when such a node is never
  reached at depth \<open>maxVisibleDepth\<close> itself (from a root, counting \<open>subThoughts\<close> steps
  only), the output holds no alias link from it: the alias is not marked.
\<close>

theorem alias_link_when_unlinked:
  "(processNode (Suc f) md r d s = Some (s', res) \<longrightarrow> \<not> md < int d \<longrightarrow>
      aliasNode (objs (heap s) r) = Some a \<longrightarrow>
      forEachSub f md (mkD3Node r (objs (heap s) r)) (subThoughts (objs (heap s) r)) d
        (pushNode (mkD3Node r (objs (heap s) r)) s) = Some s2 \<longrightarrow>
      list_ex (joins (tn_id (objs (heap s) r)) (tn_id (objs (heap s) a))) (d3Links s2) \<longrightarrow>
      s' = s2)
   \<and> (processNode (Suc f) md r d s = Some (s', res) \<longrightarrow> int d < md \<longrightarrow>
      aliasNode (objs (heap s) r) = Some a \<longrightarrow> a \<in> set (subThoughts (objs (heap s) r)) \<longrightarrow>
      forEachSub f md (mkD3Node r (objs (heap s) r)) (subThoughts (objs (heap s) r)) d
        (pushNode (mkD3Node r (objs (heap s) r)) s) = Some s'
      \<and> (\<exists>l\<in>set (d3Links s'). \<not> isAlias l \<and> source l = mkD3Node r (objs (heap s) r)
            \<and> d3_id (target l) = tn_id (objs (heap s) a)))
   \<and> (flatten fuel st maxVisibleDepth rootThoughts = Some out \<longrightarrow>
      aliasNode (objs st p) = Some c \<longrightarrow> c \<in> set (subThoughts (objs st p)) \<longrightarrow>
      (\<forall>k. visibleAt st rootThoughts k p \<longrightarrow> int k \<noteq> maxVisibleDepth) \<longrightarrow>
      (\<forall>l\<in>set (d3Links out). isAlias l \<longrightarrow> originalNode (source l) \<noteq> p))"
proof (intro conjI impI)
  assume a: "processNode (Suc f) md r d s = Some (s', res)" "\<not> md < int d"
    "aliasNode (objs (heap s) r) = Some a"
    "forEachSub f md (mkD3Node r (objs (heap s) r)) (subThoughts (objs (heap s) r)) d
        (pushNode (mkD3Node r (objs (heap s) r)) s) = Some s2"
    "list_ex (joins (tn_id (objs (heap s) r)) (tn_id (objs (heap s) a))) (d3Links s2)"
  have "heap s2 = heap s" using forEachSub_heap [OF a(4)] by simp
  then show "s' = s2" using a by (simp add: processNode.simps(2) Let_def)
next
  assume a: "processNode (Suc f) md r d s = Some (s', res)" "int d < md"
    "aliasNode (objs (heap s) r) = Some a" "a \<in> set (subThoughts (objs (heap s) r))"
  from processNode_alias_child [OF a]
  show "forEachSub f md (mkD3Node r (objs (heap s) r)) (subThoughts (objs (heap s) r)) d
        (pushNode (mkD3Node r (objs (heap s) r)) s) = Some s'"
    by simp
  from processNode_alias_child [OF a]
  show "\<exists>l\<in>set (d3Links s'). \<not> isAlias l \<and> source l = mkD3Node r (objs (heap s) r)
            \<and> d3_id (target l) = tn_id (objs (heap s) a)"
    by (simp add: structLinked_def)
next
  assume run: "flatten fuel st maxVisibleDepth rootThoughts = Some out"
    and ali: "aliasNode (objs st p) = Some c" and child: "c \<in> set (subThoughts (objs st p))"
    and never: "\<forall>k. visibleAt st rootThoughts k p \<longrightarrow> int k \<noteq> maxVisibleDepth"
  show "\<forall>l\<in>set (d3Links out). isAlias l \<longrightarrow> originalNode (source l) \<noteq> p"
  proof (intro ballI impI notI)
    fix l assume l: "l \<in> set (d3Links out)" "isAlias l" "originalNode (source l) = p"
    have "aliasLinkOk st rootThoughts maxVisibleDepth l"
      using flatten_aliasOk [OF run] l(1) by (simp add: aliasOk_def)
    then obtain k where "visibleAt st rootThoughts k p" "int k = maxVisibleDepth"
      using l(2,3) ali child by (auto simp: aliasLinkOk_def)
    then show False using never by blast
  qed
qed

theorem alias_link_when_unlinked_witness:
  "map_option (\<lambda>s. (nodeIds s, linkKeys s)) (map_option fst (processNode 3 5 0 0 (emptyState aliasChildStore)))
     = Some ([''p'', ''c''], [(''p'', ''c'', False)])
   \<and> map_option fst (processNode 3 5 0 0 (emptyState aliasChildStore))
     = forEachSub 2 5 (mkD3Node 0 (objs aliasChildStore 0)) [1] 0
         (pushNode (mkD3Node 0 (objs aliasChildStore 0)) (emptyState aliasChildStore))
   \<and> map_option linkKeys (flatten 3 aliasChildStore 5 [0]) = Some [(''p'', ''c'', False)]
   \<and> list_all (\<lambda>l. isAlias l \<longrightarrow> originalNode (source l) \<noteq> 0)
        (d3Links (the (flatten 3 aliasChildStore 5 [0])))"
proof -
  let ?s = "emptyState aliasChildStore"
  let ?n = "mkD3Node 0 (objs (heap ?s) 0)"
  have st: "heap ?s = aliasChildStore" by (simp add: emptyState_def)
  have o0: "subThoughts (objs aliasChildStore 0) = [1]" "aliasNode (objs aliasChildStore 0) = Some 1"
    "tn_id (objs aliasChildStore 0) = ''p''"
    by (simp_all add: aliasChildStore_def storeOf_def exampleNode_def newThoughtNode_def)
  have o1: "subThoughts (objs aliasChildStore 1) = []" "aliasNode (objs aliasChildStore 1) = None"
    "tn_id (objs aliasChildStore 1) = ''c''"
    by (simp_all add: aliasChildStore_def storeOf_def exampleNode_def newThoughtNode_def)
  define s2 where "s2 = pushLink ?n (mkD3Node 1 (objs aliasChildStore 1)) False
     (pushNode (mkD3Node 1 (objs aliasChildStore 1)) (pushNode ?n ?s))"
  have h2: "heap s2 = aliasChildStore" by (simp add: s2_def emptyState_def)
  have sub: "forEachSub (Suc (Suc 0)) 5 ?n (subThoughts (objs (heap ?s) 0)) 0 (pushNode ?n ?s)
      = Some s2"
    using o0 o1 st
    by (simp add: s2_def processNode.simps(2) forEachSub.simps(2) Let_def)
  have ali: "aliasNode (objs (heap ?s) 0) = Some 1" using o0 st by simp
  have lk: "list_ex (joins (tn_id (objs (heap ?s) 0)) (tn_id (objs (heap ?s) 1))) (d3Links s2)"
    using o0 o1 st by (simp add: s2_def joins_def)
  have "processNode (Suc (Suc (Suc 0))) 5 0 0 ?s \<noteq> None"
    using sub lk o0 o1 st h2 by (simp add: processNode.simps(2) [of "Suc (Suc 0)"] Let_def)
  then obtain s' res where run: "processNode (Suc (Suc (Suc 0))) 5 0 0 ?s = Some (s', res)"
    by auto
  have ev: "map_option linkKeys (flatten 3 aliasChildStore 5 [0]) = Some [(''p'', ''c'', False)]"
    by (simp add: eval_defs aliasChildStore_def numeral_nat)
  then obtain out where out: "flatten 3 aliasChildStore 5 [0] = Some out" by blast
  have never: "\<forall>k. visibleAt aliasChildStore [0] k 0 \<longrightarrow> int k \<noteq> 5"
  proof (intro allI impI)
    fix k assume "visibleAt aliasChildStore [0] k 0"
    from aliasChildStore_visible [OF this] show "int k \<noteq> 5" by simp
  qed
  have child: "1 \<in> set (subThoughts (objs aliasChildStore 0))" using o0 by simp
  note T = alias_link_when_unlinked [where f = "Suc (Suc 0)" and md = 5 and r = 0 and d = 0
      and s = ?s and s' = s' and res = res and a = 1 and ?s2.0 = s2 and fuel = 3
      and st = aliasChildStore and maxVisibleDepth = 5 and rootThoughts = "[0]" and out = out
      and p = 0 and c = 1]
  have "\<not> 5 < int 0" by simp
  from T [THEN conjunct1, rule_format, OF run this ali sub lk] have e: "s' = s2" .
  have ids: "nodeIds s2 = [''p'', ''c'']" "linkKeys s2 = [(''p'', ''c'', False)]"
    using o0 o1 st by (simp_all add: s2_def nodeIds_def linkKeys_def emptyState_def)
  have a1: "map_option (\<lambda>s. (nodeIds s, linkKeys s))
      (map_option fst (processNode 3 5 0 0 ?s)) = Some ([''p'', ''c''], [(''p'', ''c'', False)])"
    using run e ids by (simp add: numeral_3_eq_3)
  have below: "int 0 < 5" by simp
  have child': "1 \<in> set (subThoughts (objs (heap ?s) 0))" using o0 st by simp
  from T [THEN conjunct2, THEN conjunct1, rule_format, OF run below ali child']
  have p2: "forEachSub (Suc (Suc 0)) 5 ?n (subThoughts (objs (heap ?s) 0)) 0 (pushNode ?n ?s)
      = Some s'"
    by simp
  have a2: "map_option fst (processNode 3 5 0 0 ?s)
     = forEachSub 2 5 (mkD3Node 0 (objs aliasChildStore 0)) [1] 0
         (pushNode (mkD3Node 0 (objs aliasChildStore 0)) ?s)"
    using run p2 o0 st by (simp add: numeral_3_eq_3 numeral_2_eq_2)
  from T [THEN conjunct2, THEN conjunct2, rule_format, OF out o0(2) child never [rule_format]]
  have "list_all (\<lambda>l. isAlias l \<longrightarrow> originalNode (source l) \<noteq> 0) (d3Links out)"
    unfolding list_all_iff by blast
  then show ?thesis using a1 a2 ev out by simp
qed

text \<open>
  Claim C4, as stated: with \<open>maxVisibleDepth = 0\<close> no node of a root's \<open>subThoughts\<close>
  would be in the output. Root \<open>p\<close> has the child \<open>c\<close> and \<open>p.aliasNode = c\<close>: the child
  is omitted by the descent, and then visited at depth 0 when the alias is resolved.
\<close>

theorem aliasChild_depth0_counterexample:
  "map_option nodeIds (flatten 3 aliasChildStore 0 [0]) = Some [''p'', ''c'']
   \<and> subThoughts (objs aliasChildStore 0) = [1]
   \<and> tn_id (objs aliasChildStore 1) = ''c''"
  by (simp add: eval_defs aliasChildStore_def numeral_nat)

text \<open>
  Claim C4, amended. A call of \<open>processNode\<close> at a depth above \<open>maxVisibleDepth\<close> adds no
  node and no link and returns \<open>undefined\<close> (so its caller adds no structural link).
  Every node of the output is reached from a root by a path with at most
  \<open>maxVisibleDepth\<close> \<open>subThoughts\<close> steps, \<open>aliasNode\<close> steps not counted, and every
  structural link goes from such a node to one of its \<open>subThoughts\<close>, one step deeper and
  still within the bound. With \<open>maxVisibleDepth = 0\<close> the output holds only roots and
  nodes reached from a root by \<open>aliasNode\<close> steps alone, and no structural link.
\<close>

theorem depth_truncation:
  "(md < int d \<longrightarrow> processNode (Suc fuel) md r d s = Some (s, None))
   \<and> (flatten fuel st md roots = Some out \<longrightarrow>
        (\<forall>n\<in>set (d3Nodes out). \<exists>k. int k \<le> md \<and> visibleAt st roots k (originalNode n))
      \<and> (\<forall>l\<in>set (d3Links out). \<not> isAlias l \<longrightarrow>
           (\<exists>k. int (Suc k) \<le> md \<and> visibleAt st roots k (originalNode (source l)) \<and>
              originalNode (target l) \<in> set (subThoughts (objs st (originalNode (source l)))))))
   \<and> (flatten fuel st 0 roots = Some outz \<longrightarrow>
        (\<forall>n\<in>set (d3Nodes outz). visibleAt st roots 0 (originalNode n))
      \<and> (\<forall>l\<in>set (d3Links outz). isAlias l))"
proof (intro conjI impI)
  assume "md < int d"
  then show "processNode (Suc fuel) md r d s = Some (s, None)"
    by (simp add: processNode.simps(2))
next
  assume "flatten fuel st md roots = Some out"
  from flatten_depthOk [OF this]
  show "\<forall>n\<in>set (d3Nodes out). \<exists>k. int k \<le> md \<and> visibleAt st roots k (originalNode n)"
    by (simp add: depthOk_def nodeOk_def)
next
  assume "flatten fuel st md roots = Some out"
  from flatten_depthOk [OF this]
  show "\<forall>l\<in>set (d3Links out). \<not> isAlias l \<longrightarrow>
           (\<exists>k. int (Suc k) \<le> md \<and> visibleAt st roots k (originalNode (source l)) \<and>
              originalNode (target l) \<in> set (subThoughts (objs st (originalNode (source l)))))"
    by (auto simp: depthOk_def linkOk_def)
next
  assume "flatten fuel st 0 roots = Some outz"
  from flatten_depthOk [OF this]
  show "\<forall>n\<in>set (d3Nodes outz). visibleAt st roots 0 (originalNode n)"
    by (auto simp: depthOk_def nodeOk_def)
next
  assume "flatten fuel st 0 roots = Some outz"
  from flatten_depthOk [OF this]
  show "\<forall>l\<in>set (d3Links outz). isAlias l"
    by (auto simp: depthOk_def linkOk_def)
qed


theorem depth_truncation_witness:
  "processNode 4 0 1 1 (emptyState aliasChildStore) = Some (emptyState aliasChildStore, None)
   \<and> map_option (\<lambda>s. (nodeIds s, linkKeys s)) (flatten 3 aliasChildStore 0 [0])
       = Some ([''p'', ''c''], [(''p'', ''c'', True)])
   \<and> list_all (\<lambda>n. visibleAt aliasChildStore [0] 0 (originalNode n))
         (d3Nodes (the (flatten 3 aliasChildStore 0 [0])))
   \<and> list_all isAlias (d3Links (the (flatten 3 aliasChildStore 0 [0])))"
proof -
  have ev: "map_option (\<lambda>s. (nodeIds s, linkKeys s)) (flatten 3 aliasChildStore 0 [0])
       = Some ([''p'', ''c''], [(''p'', ''c'', True)])"
    by (simp add: eval_defs aliasChildStore_def numeral_nat)
  then obtain out where out: "flatten 3 aliasChildStore 0 [0] = Some out" by blast
  have d: "(0::int) < int 1" by simp
  from depth_truncation [where md = 0 and d = 1 and fuel = 3 and r = 1
      and s = "emptyState aliasChildStore" and st = aliasChildStore and roots = "[0]"
      and out = out and outz = out]
    out ev d
  show ?thesis by (simp add: eval_nat_numeral list_all_iff)
qed


text \<open>
  Claim C5, as stated: \<open>b\<close> would be in the output whenever \<open>a\<close> is reachable from a root
  and \<open>a.aliasNode = b\<close>. With \<open>maxVisibleDepth = 0\<close> and \<open>a\<close> a child of the root, \<open>a\<close> is
  not visited, its alias is never resolved, and \<open>b\<close> is absent.
\<close>

theorem alias_target_unreached_counterexample:
  "map_option nodeIds
     (flatten 3 (storeOf [exampleNode ''r'' [1] None, exampleNode ''a'' [] (Some 2),
        exampleNode ''b'' [] None]) 0 [0])
   = Some [''r'']"
  by (simp add: eval_defs numeral_nat)

text \<open>
  Claim C5, amended. In a finite forest, let \<open>A\<close> be reached from a root by at most
  \<open>maxVisibleDepth\<close> \<open>subThoughts\<close> steps and have \<open>aliasNode = B\<close>, where \<open>B\<close> has an id of
  its own, is not a root, is no node's \<open>subThought\<close> and no other node's \<open>aliasNode\<close>. Then
  the pass returns, and in its output the id of \<open>B\<close> is on exactly one node and an alias
  link goes from \<open>A\<close> to \<open>B\<close>.
\<close>

theorem alias_target_once:
  assumes forest: "finite L" "closedUnder st L" "set rootThoughts \<subseteq> L"
    and reach: "root \<in> set rootThoughts" "subReach st k root A" "int k \<le> maxVisibleDepth"
    and ali: "aliasNode (objs st A) = Some B"
    and own_id: "\<forall>r\<in>L. tn_id (objs st r) = tn_id (objs st B) \<longrightarrow> r = B"
    and no_root: "B \<notin> set rootThoughts"
    and no_child: "\<forall>r\<in>L. B \<notin> set (subThoughts (objs st r))"
    and no_other: "\<forall>r\<in>L. aliasNode (objs st r) = Some B \<longrightarrow> r = A"
  shows "(\<exists>fuel out. \<forall>fuel' \<ge> fuel. flatten fuel' st maxVisibleDepth rootThoughts = Some out)
    \<and> (\<forall>fuel out. flatten fuel st maxVisibleDepth rootThoughts = Some out \<longrightarrow>
          count_list (nodeIds out) (tn_id (objs st B)) = 1
        \<and> (\<exists>l\<in>set (d3Links out). isAlias l \<and> d3_id (source l) = tn_id (objs st A)
               \<and> d3_id (target l) = tn_id (objs st B)))"
proof (intro conjI allI impI)
  show "\<exists>fuel out. \<forall>fuel' \<ge> fuel. flatten fuel' st maxVisibleDepth rootThoughts = Some out"
    using flatten_returns [OF forest] .
next
  fix fuel out
  assume run: "flatten fuel st maxVisibleDepth rootThoughts = Some out"
  let ?s0 = "\<lparr> heap = st, d3Nodes = [], d3Links = [] \<rparr>"
  have ao: "aliasOnly st L A B"
    using ali own_id no_child no_other by (simp add: aliasOnly_def)
  have r0: "forEachRoot fuel maxVisibleDepth rootThoughts ?s0 = Some out"
    using run by (simp add: flatten_def)
  have "\<exists>r\<in>set rootThoughts. \<exists>k. subReach st k r A \<and> int k \<le> maxVisibleDepth"
    using reach by blast
  with forEachRoot_alias [OF forest(2) ao r0 _ forest(3) no_root]
  have res: "linksClosed out" "count_list (nodeIds out) (tn_id (objs st B)) \<le> 1"
    "aliasLinked (tn_id (objs st A)) (tn_id (objs st B)) out"
    by (simp_all add: linksClosed_def aliasPending_def nodeIds_def)
  have "tn_id (objs st B) \<in> set (nodeIds out)" using aliasLinked_in_nodes [OF res(1,3)] .
  then have "count_list (nodeIds out) (tn_id (objs st B)) \<noteq> 0" by (simp add: count_list_0_iff)
  then show "count_list (nodeIds out) (tn_id (objs st B)) = 1" using res(2) by simp
  show "\<exists>l\<in>set (d3Links out). isAlias l \<and> d3_id (source l) = tn_id (objs st A)
               \<and> d3_id (target l) = tn_id (objs st B)"
    using res(3) by (simp add: aliasLinked_def list_ex_iff)
qed

theorem alias_target_once_witness:
  "finite {0, 1, 2 :: nat} \<and> closedUnder aliasTargetStore {0, 1, 2} \<and> set [0 :: nat] \<subseteq> {0, 1, 2}
   \<and> subReach aliasTargetStore 1 0 1 \<and> aliasNode (objs aliasTargetStore 1) = Some 2
   \<and> map_option (\<lambda>s. (nodeIds s, linkKeys s)) (flatten 4 aliasTargetStore 1 [0])
      = Some ([''r'', ''a'', ''b''], [(''b'', ''a'', True), (''a'', ''b'', True), (''r'', ''a'', False)])
   \<and> count_list (nodeIds (the (flatten 4 aliasTargetStore 1 [0]))) ''b'' = 1"
proof -
  let ?st = aliasTargetStore
  have o: "objs ?st 0 = exampleNode ''r'' [1] None" "objs ?st 1 = exampleNode ''a'' [] (Some 2)"
    "objs ?st (Suc 0) = exampleNode ''a'' [] (Some 2)" "objs ?st 2 = exampleNode ''b'' [] (Some 1)"
    by (simp_all add: aliasTargetStore_def storeOf_def)
  have f: "finite {0, 1, 2 :: nat}" by simp
  have c: "closedUnder ?st {0, 1, 2}"
    by (simp add: closedUnder_def o exampleNode_def newThoughtNode_def)
  have r: "set [0 :: nat] \<subseteq> {0, 1, 2}" "(0::nat) \<in> set [0]" by simp_all
  have sr: "subReach ?st 1 0 1" by (simp add: o exampleNode_def newThoughtNode_def)
  have k: "int 1 \<le> 1" by simp
  have al: "aliasNode (objs ?st 1) = Some 2" by (simp add: o exampleNode_def newThoughtNode_def)
  have u: "\<forall>r\<in>{0, 1, 2}. tn_id (objs ?st r) = tn_id (objs ?st 2) \<longrightarrow> r = 2"
    by (simp add: o exampleNode_def newThoughtNode_def)
  have nr: "(2::nat) \<notin> set [0]" by simp
  have nc: "\<forall>r\<in>{0, 1, 2}. 2 \<notin> set (subThoughts (objs ?st r))"
    by (simp add: o exampleNode_def newThoughtNode_def)
  have oa: "\<forall>r\<in>{0, 1, 2}. aliasNode (objs ?st r) = Some 2 \<longrightarrow> r = 1"
    by (simp add: o exampleNode_def newThoughtNode_def)
  have ev: "map_option (\<lambda>s. (nodeIds s, linkKeys s)) (flatten 4 ?st 1 [0])
      = Some ([''r'', ''a'', ''b''], [(''b'', ''a'', True), (''a'', ''b'', True), (''r'', ''a'', False)])"
    by (simp add: eval_defs aliasTargetStore_def numeral_nat)
  then obtain out where out: "flatten 4 ?st 1 [0] = Some out" by blast
  have idb: "tn_id (objs ?st 2) = ''b''" by (simp add: o exampleNode_def newThoughtNode_def)
  from alias_target_once [OF f c r(1) r(2) sr k al u nr nc oa] out idb
  have "count_list (nodeIds out) ''b'' = 1" by auto
  then show ?thesis using f c r sr al ev out by simp
qed


end
